theory Spec2Isabelle
  imports Main "HOL-Library.Word"
begin

section \<open>Data of udptunnel.c\<close>

text \<open>
  A shallow embedding of the relay of \<^verbatim>\<open>src/udptunnel.c\<close>: the frame encoder
  \<^verbatim>\<open>udp_to_tcp\<close>, the datagram sender \<^verbatim>\<open>send_udp_packet\<close> and the stream parser
  \<^verbatim>\<open>tcp_to_udp\<close>. The relay structure is a record that every function takes and
  returns; system calls are inputs (what the call returned) and outputs (an event
  in a trace); \<^verbatim>\<open>exit\<close> is an outcome of its own.
\<close>

type_synonym byte = "8 word"

definition TCPBUFFERSIZE :: nat where
  "TCPBUFFERSIZE = 65536"

definition UDPBUFFERSIZE :: nat where
  "UDPBUFFERSIZE = TCPBUFFERSIZE - 2"

text \<open>The anonymous enum of \<^verbatim>\<open>struct relay\<close>, in the source's order.\<close>

datatype parse_state = uninitialized | reading_handshake | reading_length | reading_packet

text \<open>
  A \<^verbatim>\<open>struct sockaddr_storage\<close> is kept as its bytes, because \<^verbatim>\<open>udp_to_tcp\<close>
  overwrites only the first \<^verbatim>\<open>addrlen\<close> bytes of it. \<^verbatim>\<open>ss_family\<close> is the
  two-byte field at its start; the source only compares it with 0, that is, both bytes
  with zero.
\<close>

type_synonym sockaddr_storage = "byte list"

definition ss_family :: "sockaddr_storage \<Rightarrow> byte list" where
  "ss_family a = take 2 a"

text \<open>
  \<^verbatim>\<open>struct relay\<close>. The pointers \<^verbatim>\<open>buf_ptr\<close> and \<^verbatim>\<open>packet_start\<close> point into
  \<^verbatim>\<open>buf\<close> and are kept as byte offsets from \<^verbatim>\<open>buf\<close>. \<^verbatim>\<open>packet_length\<close> is a C
  \<^verbatim>\<open>int\<close> that only ever holds 32, 2 or a value of \<^verbatim>\<open>ntohs\<close> (0..65535).
\<close>

record relay =
  remote_udpaddr :: sockaddr_storage
  udp_sock :: int
  tcp_sock :: int
  expect_handshake :: int
  handshake :: "byte list"
  udp_timeout :: int
  tcp_timeout :: int
  buf :: "byte list"
  buf_ptr :: nat
  packet_start :: nat
  packet_length :: nat
  state :: parse_state

subsection \<open>System calls, the trace and the outcome\<close>

datatype log_level = log_err | log_warning | log_notice | log_info | log_debug

text \<open>
  What the relay does to the outside: a call of the logger, \<^verbatim>\<open>sendto\<close> on the
  datagram socket (socket, payload, destination), \<^verbatim>\<open>send\<close> on the stream socket
  (socket, bytes) and \<^verbatim>\<open>getsockopt(SO_ERROR)\<close>.
\<close>

datatype event =
    Log log_level string
  | Sendto int "byte list" sockaddr_storage
  | Send int "byte list"
  | Getsockopt_SO_ERROR int

text \<open>
  A function of the relay returns to its caller with the relay updated, or ends the
  process with an exit status, or never leaves its loop.
\<close>

datatype outcome = Running relay | Exited int | Hangs

type_synonym result = "event list \<times> outcome"

datatype errno = ECONNREFUSED | Other_errno nat

text \<open>The return of a system call: non-negative, or negative with \<^verbatim>\<open>errno\<close> set.\<close>

datatype sysret = Ok | Failed errno

text \<open>
  \<^verbatim>\<open>recvfrom\<close>: a failure, or the datagram as it arrived with its source address and
  the \<^verbatim>\<open>addrlen\<close> the kernel reports.
  \<^verbatim>\<open>read\<close>: a failure, or the bytes that are waiting in the socket's receive queue
  when the call is made (none: the peer has closed the connection).
\<close>

datatype recv_ret = Recv_failed errno | Recv "byte list" sockaddr_storage nat

datatype read_ret = Read_failed errno | Read_avail "byte list"

definition log_printf :: "log_level \<Rightarrow> string \<Rightarrow> event list" where
  "log_printf level msg = [Log level msg]"

definition log_printf_exit :: "int \<Rightarrow> log_level \<Rightarrow> string \<Rightarrow> result" where
  "log_printf_exit status level msg = ([Log level msg], Exited status)"

text \<open>
  Modelled from the spec: the macro \<^verbatim>\<open>err_sys\<close> is declared in a header that is not
  among the sources. The spec has every fatal I/O error end the process with status 1 and
  the underlying reason; it is logged as an error.
\<close>

definition err_sys :: "string \<Rightarrow> result" where
  "err_sys msg = ([Log log_err msg], Exited 1)"

text \<open>Sequencing: the trace grows, and nothing runs after an exit.\<close>

definition emit :: "event list \<Rightarrow> result \<Rightarrow> result" where
  "emit ev res = (ev @ fst res, snd res)"

subsection \<open>Byte order\<close>

text \<open>
  \<^verbatim>\<open>htons n\<close> as it lies in memory: the two bytes of the 16-bit value, high byte first
  (the conversion to \<^verbatim>\<open>uint16_t\<close> keeps the low 16 bits). \<^verbatim>\<open>ntohs\<close> reads two bytes
  back the same way.
\<close>

definition htons :: "nat \<Rightarrow> byte list" where
  "htons n = [of_nat (n div 256), of_nat n]"

definition ntohs :: "byte list \<Rightarrow> nat" where
  "ntohs bs = (case bs of hi # lo # _ \<Rightarrow> 256 * unat hi + unat lo | _ \<Rightarrow> 0)"

subsection \<open>parse_args and main: the handshake token\<close>

text \<open>
  The string literal of \<^verbatim>\<open>parse_args\<close>, with the terminating NUL the compiler adds;
  \<^verbatim>\<open>memcpy\<close> takes its first 32 bytes.
\<close>

definition handshake_literal :: "byte list" where
  "handshake_literal =
     map of_char ''udptunnel by md.'' @ [0, 0, 0] @
     [0x01, 0x03, 0x06, 0x10, 0x15, 0x21, 0x28, 0x36, 0x45, 0x55, 0x66, 0x78, 0x91] @ [0]"

definition opts_handshake :: "byte list" where
  "opts_handshake = take 32 handshake_literal"

subsection \<open>udp_to_tcp\<close>

text \<open>
  \<^verbatim>\<open>recvfrom\<close> stores at most \<^verbatim>\<open>UDPBUFFERSIZE\<close> bytes of the datagram in \<^verbatim>\<open>p.buf\<close>.
  The bytes handed to \<^verbatim>\<open>send\<close> are the first \<^verbatim>\<open>buflen + 2\<close> bytes of
  \<^verbatim>\<open>struct out_packet\<close>: the length field, then the payload.
\<close>

definition udp_to_tcp :: "relay \<Rightarrow> recv_ret \<Rightarrow> sysret \<Rightarrow> result" where
  "udp_to_tcp r rcv snd_ret =
     (case rcv of
        Recv_failed e \<Rightarrow> err_sys ''recvfrom(udp)''
      | Recv dgram from addrlen \<Rightarrow>
          (let p_buf = take UDPBUFFERSIZE dgram;
               buflen = length p_buf
           in if buflen = 0 then ([], Running r)
              else
                (let r' = r\<lparr>remote_udpaddr := take addrlen from @ drop addrlen (remote_udpaddr r)\<rparr>;
                     p = htons buflen @ p_buf
                 in case snd_ret of
                      Failed e \<Rightarrow> emit [Send (tcp_sock r') p] (err_sys ''send(tcp)'')
                    | Ok \<Rightarrow> ([Send (tcp_sock r') p], Running r'))))"

subsection \<open>send_udp_packet\<close>

text \<open>
  The second argument is what \<^verbatim>\<open>sendto\<close> returns and what \<^verbatim>\<open>getsockopt\<close> returns
  if it is called.
\<close>

definition send_udp_packet :: "relay \<Rightarrow> sysret \<times> sysret \<Rightarrow> result" where
  "send_udp_packet r env =
     (if ss_family (remote_udpaddr r) = [0, 0]
      then (log_printf log_info ''Ignoring a packet for a still unknown UDP destination!'', Running r)
      else
        emit [Sendto (udp_sock r) (take (packet_length r) (drop (packet_start r) (buf r)))
                (remote_udpaddr r)]
          (case fst env of
             Ok \<Rightarrow> ([], Running r)
           | Failed e \<Rightarrow>
               if e \<noteq> ECONNREFUSED then err_sys ''sendto(udp)''
               else
                 emit (log_printf log_info ''sendto(udp) returned ECONNREFUSED: ignored'' @
                       [Getsockopt_SO_ERROR (udp_sock r)])
                   (case snd env of
                      Failed e' \<Rightarrow> err_sys ''getsockopt(udp, SOL_SOCKET, SO_ERROR)''
                    | Ok \<Rightarrow> ([], Running r))))"

subsection \<open>tcp_to_udp\<close>

text \<open>The block that runs when the state is \<^verbatim>\<open>uninitialized\<close>.\<close>

definition tcp_init :: "relay \<Rightarrow> relay" where
  "tcp_init r =
     (if state r = uninitialized then
        (if expect_handshake r \<noteq> 0
         then r\<lparr>state := reading_handshake, packet_length := 32, buf_ptr := 0, packet_start := 0\<rparr>
         else r\<lparr>state := reading_length, packet_length := 2, buf_ptr := 0, packet_start := 0\<rparr>)
      else r)"

text \<open>
  The end of the \<^verbatim>\<open>reading_packet\<close> branch: \<^verbatim>\<open>memmove\<close> of the bytes behind the
  packet to the start of the buffer, then the pointer updates.
\<close>

definition compact :: "relay \<Rightarrow> relay" where
  "compact r =
     (let src = packet_start r + packet_length r;
          n = buf_ptr r - src
      in r\<lparr>buf := take n (drop src (buf r)) @ drop n (buf r),
            buf_ptr := buf_ptr r - (packet_length r + packet_start r),
            packet_start := 0,
            state := reading_length,
            packet_length := 2\<rparr>)"

text \<open>
  The body of the \<^verbatim>\<open>while\<close> loop: one branch per state. The argument \<open>e\<close> is what
  the system calls of \<^verbatim>\<open>send_udp_packet\<close> return, if this round calls it. In the
  state \<^verbatim>\<open>uninitialized\<close> no branch is taken and nothing changes.
\<close>

definition tcp_body :: "relay \<Rightarrow> sysret \<times> sysret \<Rightarrow> result" where
  "tcp_body r e =
     (case state r of
        reading_handshake \<Rightarrow>
          if take 32 (drop (packet_start r) (buf r)) \<noteq> take 32 (handshake r)
          then log_printf_exit 0 log_info ''Received a bad handshake, exiting''
          else (log_printf log_debug ''Received a good handshake'',
                Running (r\<lparr>packet_start := packet_start r + 32,
                            state := reading_length,
                            packet_length := 2\<rparr>))
      | reading_length \<Rightarrow>
          ([], Running (r\<lparr>packet_length := ntohs (take 2 (drop (packet_start r) (buf r))),
                           packet_start := packet_start r + 2,
                           state := reading_packet\<rparr>))
      | reading_packet \<Rightarrow>
          (case send_udp_packet r e of
             (ev, Running r') \<Rightarrow> (ev, Running (compact r'))
           | (ev, out) \<Rightarrow> (ev, out))
      | uninitialized \<Rightarrow> ([], Running r))"

text \<open>
  The loop condition \<^verbatim>\<open>buf_ptr - packet_start >= packet_length\<close> compares signed
  integers; it is written here without a subtraction.
\<close>

definition tcp_cond :: "relay \<Rightarrow> bool" where
  "tcp_cond r = (packet_start r + packet_length r \<le> buf_ptr r)"

lemma send_udp_packet_Running:
  "send_udp_packet r e = (ev, Running r') \<Longrightarrow> r' = r"
  by (auto simp: send_udp_packet_def emit_def err_sys_def
      split: if_splits sysret.splits)

text \<open>What decreases in every round of the loop.\<close>

definition tcp_rank :: "relay \<Rightarrow> nat" where
  "tcp_rank r = 2 * (3 * buf_ptr r + 4 - 2 * packet_start r)
           + (case state r of reading_handshake \<Rightarrow> 2 | reading_packet \<Rightarrow> 1 | _ \<Rightarrow> 0)"

lemma tcp_body_rank:
  assumes "tcp_cond r" and "state r \<noteq> uninitialized"
    and "tcp_body r e = (ev, Running r')"
  shows "tcp_rank r' < tcp_rank r"
proof (cases "state r")
  case uninitialized
  with assms show ?thesis by simp
next
  case reading_handshake
  with assms show ?thesis
    by (auto simp: tcp_body_def tcp_cond_def tcp_rank_def log_printf_exit_def split: if_splits)
next
  case reading_length
  with assms show ?thesis
    by (auto simp: tcp_body_def tcp_cond_def tcp_rank_def)
next
  case reading_packet
  with assms obtain ev0 r0 where s: "send_udp_packet r e = (ev0, Running r0)"
    and r': "r' = compact r0"
    by (auto simp: tcp_body_def split: prod.splits outcome.splits)
  from s have "r0 = r" by (rule send_udp_packet_Running)
  with r' reading_packet assms(1) show ?thesis
    by (simp add: compact_def Let_def tcp_cond_def tcp_rank_def)
qed

text \<open>
  The \<^verbatim>\<open>while\<close> loop. \<open>env k\<close> is what the system calls return in round \<open>k\<close>.
  A loop whose condition holds in the state \<^verbatim>\<open>uninitialized\<close> never ends.
\<close>

function tcp_loop :: "relay \<Rightarrow> (nat \<Rightarrow> sysret \<times> sysret) \<Rightarrow> nat \<Rightarrow> result" where
  "tcp_loop r env k =
     (if tcp_cond r then
        (if state r = uninitialized then ([], Hangs)
         else
           (case tcp_body r (env k) of
              (ev, Running r') \<Rightarrow> emit ev (tcp_loop r' env (Suc k))
            | (ev, out) \<Rightarrow> (ev, out)))
      else ([], Running r))"
  by pat_completeness auto
termination
  by (relation "measure (\<lambda>(r, env, k). tcp_rank r)")
    (auto dest!: tcp_body_rank [OF _ _ sym])

text \<open>
  One call of \<^verbatim>\<open>tcp_to_udp\<close>. \<^verbatim>\<open>read\<close> is asked for at most
  \<^verbatim>\<open>buf + TCPBUFFERSIZE - buf_ptr\<close> bytes and stores that many of the waiting bytes at
  \<^verbatim>\<open>buf_ptr\<close>; it returns 0 when it stores nothing.
\<close>

definition tcp_read_count :: "relay \<Rightarrow> nat" where
  "tcp_read_count r = TCPBUFFERSIZE - buf_ptr (tcp_init r)"

definition store_read :: "relay \<Rightarrow> byte list \<Rightarrow> relay" where
  "store_read r bs =
     r\<lparr>buf := take (buf_ptr r) (buf r) @ bs @ drop (buf_ptr r + length bs) (buf r),
       buf_ptr := buf_ptr r + length bs\<rparr>"

definition tcp_to_udp :: "relay \<Rightarrow> (nat \<Rightarrow> sysret \<times> sysret) \<Rightarrow> read_ret \<Rightarrow> result" where
  "tcp_to_udp r env rd =
     (let r1 = tcp_init r in
      case rd of
        Read_failed e \<Rightarrow> err_sys ''read(tcp)''
      | Read_avail waiting \<Rightarrow>
          (let bs = take (TCPBUFFERSIZE - buf_ptr r1) waiting in
           if length bs = 0
           then log_printf_exit 0 log_notice ''Remote closed the connection''
           else tcp_loop (store_read r1 bs) env 0))"

lemma tcp_to_udp_Running_count:
  "tcp_to_udp r env (Read_avail waiting) = (ev, Running r') \<Longrightarrow> 0 < tcp_read_count r"
  by (auto simp: tcp_to_udp_def tcp_read_count_def Let_def log_printf_exit_def
      split: if_splits)

subsection \<open>main_loop, one socket at a time\<close>

text \<open>
  \<^verbatim>\<open>main_loop\<close> calls \<^verbatim>\<open>tcp_to_udp\<close> each time \<^verbatim>\<open>select\<close> reports the stream socket
  readable. \<open>tcp_feed\<close> is that loop for a peer that sends the bytes \<open>s\<close> and keeps the
  connection open: call \<open>i\<close> finds the next \<open>sched i + 1\<close> bytes of the stream waiting
  (or what is left of it), \<^verbatim>\<open>read\<close> takes what it was asked for, and the rest stays
  in the queue. It stops when the stream has been read, or when the relay exits.
  \<open>env i\<close> gives the returns of the system calls of \<^verbatim>\<open>send_udp_packet\<close> during call
  \<open>i\<close>.
\<close>

function tcp_feed ::
  "relay \<Rightarrow> (nat \<Rightarrow> nat \<Rightarrow> sysret \<times> sysret) \<Rightarrow> (nat \<Rightarrow> nat) \<Rightarrow> nat \<Rightarrow> byte list \<Rightarrow> result" where
  "tcp_feed r env sched i s =
     (if s = [] then ([], Running r)
      else
        (case tcp_to_udp r (env i) (Read_avail (take (Suc (sched i)) s)) of
           (ev, Running r') \<Rightarrow>
             emit ev (tcp_feed r' env sched (Suc i)
                        (drop (min (Suc (sched i)) (tcp_read_count r)) s))
         | (ev, out) \<Rightarrow> (ev, out)))"
  by pat_completeness auto
termination
  by (relation "measure (\<lambda>(r, env, sched, i, s). length s)")
    (auto dest!: tcp_to_udp_Running_count [OF sym])

text \<open>A list of calls of \<^verbatim>\<open>tcp_to_udp\<close> with any returns of \<^verbatim>\<open>read\<close>.\<close>

fun tcp_calls ::
  "relay \<Rightarrow> ((nat \<Rightarrow> sysret \<times> sysret) \<times> read_ret) list \<Rightarrow> result" where
  "tcp_calls r [] = ([], Running r)"
| "tcp_calls r (x # xs) =
     (case tcp_to_udp r (fst x) (snd x) of
        (ev, Running r') \<Rightarrow> emit ev (tcp_calls r' xs)
      | (ev, out) \<Rightarrow> (ev, out))"

text \<open>What a trace shows: the datagrams sent, and the writes to the stream.\<close>

fun datagrams :: "event list \<Rightarrow> byte list list" where
  "datagrams [] = []"
| "datagrams (Sendto fd p a # ev) = p # datagrams ev"
| "datagrams (e # ev) = datagrams ev"

fun sends :: "event list \<Rightarrow> byte list list" where
  "sends [] = []"
| "sends (Send fd bs # ev) = bs # sends ev"
| "sends (e # ev) = sends ev"

subsection \<open>Notions used in the statements and proofs\<close>

text \<open>The bytes of the buffer that have been read and not yet parsed.\<close>

definition pending :: "relay \<Rightarrow> byte list" where
  "pending r = take (buf_ptr r - packet_start r) (drop (packet_start r) (buf r))"

definition offsets_ok :: "relay \<Rightarrow> bool" where
  "offsets_ok r = (packet_start r \<le> buf_ptr r \<and> buf_ptr r \<le> TCPBUFFERSIZE)"

definition buffer_ok :: "relay \<Rightarrow> bool" where
  "buffer_ok r = (offsets_ok r \<and> length (buf r) = TCPBUFFERSIZE)"

text \<open>
  The frame \<^verbatim>\<open>udp_to_tcp\<close> writes for a datagram, and the returns of \<^verbatim>\<open>sendto\<close> and
  \<^verbatim>\<open>getsockopt\<close> that \<^verbatim>\<open>send_udp_packet\<close> survives.
\<close>

definition frame :: "byte list \<Rightarrow> byte list" where
  "frame d = htons (length d) @ d"

definition nonfatal :: "sysret \<times> sysret \<Rightarrow> bool" where
  "nonfatal e = (fst e = Ok \<or> (fst e = Failed ECONNREFUSED \<and> snd e = Ok))"

text \<open>The bytes that call number \<open>i\<close> of \<open>tcp_feed\<close> stores, when it asks for \<open>n + 1\<close>.\<close>

definition chunk :: "relay \<Rightarrow> nat \<Rightarrow> byte list \<Rightarrow> byte list" where
  "chunk r n s = take (min (Suc n) (TCPBUFFERSIZE - buf_ptr r)) s"

text \<open>
  The log call of \<^verbatim>\<open>send_udp_packet\<close> for a payload it drops, and what a trace shows
  of the payloads \<open>ds\<close> handed to \<^verbatim>\<open>send_udp_packet\<close> with the peer address \<open>A\<close>: one
  such log call each when the address family is 0, and otherwise one \<^verbatim>\<open>sendto\<close> each.
\<close>

definition no_peer_log :: event where
  "no_peer_log = Log log_info ''Ignoring a packet for a still unknown UDP destination!''"

definition delivered :: "sockaddr_storage \<Rightarrow> event list \<Rightarrow> byte list list \<Rightarrow> bool" where
  "delivered A ev ds =
     (if ss_family A = [0, 0] then ev = replicate (length ds) no_peer_log
      else datagrams ev = ds)"

text \<open>
  The parser between two rounds of its loop, past the handshake if there was one, with the
  frames of the payloads \<open>ds\<close> still to come: the unparsed bytes of the buffer followed by
  the rest \<open>s\<close> of the stream are those frames (less the length field of the first, once
  it has been read), and the frame being read fits in the buffer where it starts.
\<close>

definition awaits_length :: "relay \<Rightarrow> byte list list \<Rightarrow> byte list \<Rightarrow> bool" where
  "awaits_length r ds s =
     (state r = reading_length \<and> packet_length r = 2 \<and>
      pending r @ s = concat (map frame ds) \<and>
      (case ds of [] \<Rightarrow> True | d # ds' \<Rightarrow> packet_start r + 2 + length d \<le> TCPBUFFERSIZE))"

definition awaits_packet :: "relay \<Rightarrow> byte list list \<Rightarrow> byte list \<Rightarrow> bool" where
  "awaits_packet r ds s =
     (state r = reading_packet \<and>
      (case ds of [] \<Rightarrow> False
       | d # ds' \<Rightarrow> packet_length r = length d \<and> packet_start r + length d \<le> TCPBUFFERSIZE \<and>
                   pending r @ s = d @ concat (map frame ds')))"

definition frames_inv :: "sockaddr_storage \<Rightarrow> relay \<Rightarrow> byte list list \<Rightarrow> byte list \<Rightarrow> bool" where
  "frames_inv A r ds s =
     (buffer_ok r \<and> remote_udpaddr r = A \<and> (\<forall>d\<in>set ds. length d \<le> UDPBUFFERSIZE) \<and>
      (awaits_length r ds s \<or> awaits_packet r ds s))"

text \<open>
  What holds of the parser between two rounds of its loop, once it has been initialised:
  the offsets are in order and within the buffer, which has its 65536 bytes, and the
  length awaited is the one of the state.
\<close>

definition parser_ok :: "relay \<Rightarrow> bool" where
  "parser_ok r =
     (buffer_ok r \<and> state r \<noteq> uninitialized \<and>
      (state r = reading_handshake \<longrightarrow> packet_length r = 32) \<and>
      (state r = reading_length \<longrightarrow> packet_length r = 2))"

text \<open>
  The two log calls of the handshake branch mark a comparison of the handshake;
  \<open>handshake_checks\<close> counts them in a trace. \<open>checks_left\<close> is 1 in the states from
  which the handshake branch can still be reached.
\<close>

definition handshake_checks :: "event list \<Rightarrow> nat" where
  "handshake_checks ev =
     length (filter (\<lambda>e. e = Log log_debug ''Received a good handshake'' \<or>
                          e = Log log_info ''Received a bad handshake, exiting'') ev)"

definition checks_left :: "relay \<Rightarrow> nat" where
  "checks_left r =
     (if state r = reading_handshake \<or> (state r = uninitialized \<and> expect_handshake r \<noteq> 0)
      then 1 else 0)"

text \<open>
  The parser of a relay that expects a handshake, before the comparison: nothing has
  been parsed, and the bytes read so far followed by the rest \<open>s\<close> of the stream are the
  stream \<open>S\<close>.
\<close>

definition at_handshake :: "relay \<Rightarrow> byte list \<Rightarrow> byte list \<Rightarrow> bool" where
  "at_handshake r S s =
     (state r = reading_handshake \<and> packet_start r = 0 \<and> packet_length r = 32 \<and>
      buffer_ok r \<and> length (handshake r) = 32 \<and> pending r @ s = S)"

text \<open>
  The parser of a relay that expects a handshake, on a stream \<open>S\<close> that is the token,
  a length field \<open>n\<close> and then the payload: in each of its three states, nothing has been
  moved in the buffer, so the unparsed bytes followed by the rest \<open>s\<close> of the stream are
  \<open>S\<close> from \<^verbatim>\<open>packet_start\<close> on.
\<close>

definition first_frame :: "relay \<Rightarrow> nat \<Rightarrow> byte list \<Rightarrow> byte list \<Rightarrow> bool" where
  "first_frame r n S s =
     (buffer_ok r \<and> length (handshake r) = 32 \<and> take 34 S = handshake r @ htons n \<and>
      length S = 34 + n \<and> n < 65536 \<and>
      pending r @ s = drop (packet_start r) S \<and>
      ((state r = reading_handshake \<and> packet_start r = 0 \<and> packet_length r = 32) \<or>
       (state r = reading_length \<and> packet_start r = 32 \<and> packet_length r = 2) \<or>
       (state r = reading_packet \<and> packet_start r = 34 \<and> packet_length r = n)))"

subsection \<open>Example relays\<close>

text \<open>
  An IPv4 peer address (family 2), and the relay as \<^verbatim>\<open>main\<close> leaves it in client mode
  before the first datagram: every field zero but the sockets and the handshake.
\<close>

definition peer_addr :: sockaddr_storage where
  "peer_addr = [2, 0, 0x13, 0x88, 127, 0, 0, 1] @ replicate 120 0"

definition relay0 :: relay where
  "relay0 = \<lparr>remote_udpaddr = [0, 0] @ replicate 126 0, udp_sock = 3, tcp_sock = 4,
     expect_handshake = 0, handshake = opts_handshake, udp_timeout = 0, tcp_timeout = 0,
     buf = replicate TCPBUFFERSIZE 0, buf_ptr = 0, packet_start = 0, packet_length = 0,
     state = uninitialized\<rparr>"

definition client_relay :: relay where
  "client_relay = relay0\<lparr>remote_udpaddr := peer_addr\<rparr>"

definition server_relay :: relay where
  "server_relay = relay0\<lparr>remote_udpaddr := peer_addr, expect_handshake := 1\<rparr>"

section \<open>Properties\<close>

declare tcp_loop.simps [simp del] tcp_feed.simps [simp del]

lemma relay_examples [simp]:
  "state relay0 = uninitialized" "expect_handshake relay0 = 0"
  "length (buf relay0) = TCPBUFFERSIZE" "handshake relay0 = opts_handshake"
  "buf_ptr relay0 = 0" "packet_start relay0 = 0" "udp_sock relay0 = 3"
  "state client_relay = uninitialized" "expect_handshake client_relay = 0"
  "length (buf client_relay) = TCPBUFFERSIZE" "remote_udpaddr client_relay = peer_addr"
  "udp_sock client_relay = 3" "buf_ptr client_relay = 0" "packet_start client_relay = 0"
  "state server_relay = uninitialized" "expect_handshake server_relay = 1"
  "length (buf server_relay) = TCPBUFFERSIZE" "handshake server_relay = opts_handshake"
  "remote_udpaddr server_relay = peer_addr"
  by (simp_all add: relay0_def client_relay_def server_relay_def)

lemma peer_addr_family [simp]: "ss_family peer_addr \<noteq> [0, 0]"
  by (simp add: peer_addr_def ss_family_def)

subsection \<open>The handshake token\<close>

lemma opts_handshake_bytes:
  "opts_handshake =
     [0x75, 0x64, 0x70, 0x74, 0x75, 0x6e, 0x6e, 0x65, 0x6c, 0x20, 0x62, 0x79, 0x20, 0x6d, 0x64, 0x2e,
      0, 0, 0, 0x01, 0x03, 0x06, 0x10, 0x15, 0x21, 0x28, 0x36, 0x45, 0x55, 0x66, 0x78, 0x91]"
  by (simp add: opts_handshake_def handshake_literal_def)

text \<open>
  C3, as the code has it: the token is 32 bytes; its first 16 bytes are the 16 characters
  of \<^verbatim>\<open>udptunnel by md.\<close>, none of them NUL; then come three NUL bytes, and the 13 bytes
  01 03 06 10 15 21 28 36 45 55 66 78 91 are its last 13 bytes.
\<close>

theorem handshake_token_layout:
  "length opts_handshake = 32 \<and>
   take 16 opts_handshake = map of_char ''udptunnel by md.'' \<and>
   take 3 (drop 16 opts_handshake) = [0, 0, 0] \<and>
   drop 19 opts_handshake =
     [0x01, 0x03, 0x06, 0x10, 0x15, 0x21, 0x28, 0x36, 0x45, 0x55, 0x66, 0x78, 0x91]"
  by (simp add: opts_handshake_bytes)

text \<open>
  C3, as the claim words it, does not hold: the last three of the first 16 bytes are not
  NUL (they are \<^verbatim>\<open>md.\<close>), and the second half is not the 13 bytes followed by padding.
\<close>

theorem handshake_token_not_as_described:
  "\<not> (drop 13 (take 16 opts_handshake) = [0, 0, 0] \<and>
      drop 16 opts_handshake =
        [0x01, 0x03, 0x06, 0x10, 0x15, 0x21, 0x28, 0x36, 0x45, 0x55, 0x66, 0x78, 0x91] @ [0, 0, 0])"
  by (simp add: opts_handshake_bytes)

subsection \<open>Datagrams in: udp_to_tcp\<close>

text \<open>
  C7: a zero-length datagram is dropped: nothing is sent on the stream socket and the
  relay is returned as it was, \<^verbatim>\<open>remote_udpaddr\<close> included, whatever the sender address.
\<close>

theorem empty_datagram_dropped:
  "udp_to_tcp r (Recv [] from addrlen) snd_ret = ([], Running r)"
  by (simp add: udp_to_tcp_def)

subsection \<open>Datagrams out: send_udp_packet\<close>

text \<open>
  C8: with no peer address (family 0) the payload is dropped: the only event is the
  informational log, no \<^verbatim>\<open>sendto\<close> is made, and the relay goes on unchanged; in the
  parser the round ends as any other, with the buffer compacted.
\<close>

theorem no_peer_drop:
  assumes "ss_family (remote_udpaddr r) = [0, 0]"
  shows "send_udp_packet r e =
           ([Log log_info ''Ignoring a packet for a still unknown UDP destination!''], Running r)
       \<and> (state r = reading_packet \<longrightarrow>
            tcp_body r e =
              ([Log log_info ''Ignoring a packet for a still unknown UDP destination!''],
               Running (compact r)))"
  using assms by (simp add: send_udp_packet_def tcp_body_def log_printf_def)

theorem no_peer_drop_witness:
  "ss_family (remote_udpaddr relay0) = [0, 0] \<and>
   send_udp_packet relay0 (Ok, Ok) =
     ([Log log_info ''Ignoring a packet for a still unknown UDP destination!''], Running relay0)"
proof -
  have h: "ss_family (remote_udpaddr relay0) = [0, 0]"
    by (simp add: relay0_def ss_family_def)
  show ?thesis using h no_peer_drop [OF h, of "(Ok, Ok)"] by simp
qed

text \<open>
  C5, as the code has it. With a peer address set: when \<^verbatim>\<open>sendto\<close> fails with
  \<^verbatim>\<open>ECONNREFUSED\<close> and \<^verbatim>\<open>getsockopt\<close> succeeds, the relay logs at info level, calls
  \<^verbatim>\<open>getsockopt(SO_ERROR)\<close> and goes on unchanged, so that a later successful send is
  the plain \<^verbatim>\<open>sendto\<close>; every other failure of \<^verbatim>\<open>sendto\<close> ends the process, and so
  does a failure of that \<^verbatim>\<open>getsockopt\<close>.
\<close>

theorem send_udp_packet_errors:
  assumes "ss_family (remote_udpaddr r) \<noteq> [0, 0]"
  shows "send_udp_packet r (Failed ECONNREFUSED, Ok) =
           ([Sendto (udp_sock r) (take (packet_length r) (drop (packet_start r) (buf r)))
               (remote_udpaddr r),
             Log log_info ''sendto(udp) returned ECONNREFUSED: ignored'',
             Getsockopt_SO_ERROR (udp_sock r)], Running r)
       \<and> send_udp_packet r (Ok, g) =
           ([Sendto (udp_sock r) (take (packet_length r) (drop (packet_start r) (buf r)))
               (remote_udpaddr r)], Running r)
       \<and> (e \<noteq> ECONNREFUSED \<longrightarrow>
            send_udp_packet r (Failed e, g) =
              ([Sendto (udp_sock r) (take (packet_length r) (drop (packet_start r) (buf r)))
                  (remote_udpaddr r),
                Log log_err ''sendto(udp)''], Exited 1))
       \<and> send_udp_packet r (Failed ECONNREFUSED, Failed e') =
           ([Sendto (udp_sock r) (take (packet_length r) (drop (packet_start r) (buf r)))
               (remote_udpaddr r),
             Log log_info ''sendto(udp) returned ECONNREFUSED: ignored'',
             Getsockopt_SO_ERROR (udp_sock r),
             Log log_err ''getsockopt(udp, SOL_SOCKET, SO_ERROR)''], Exited 1)"
  using assms by (simp add: send_udp_packet_def emit_def log_printf_def err_sys_def)

theorem send_udp_packet_errors_witness:
  "ss_family (remote_udpaddr (relay0\<lparr>remote_udpaddr := peer_addr\<rparr>)) \<noteq> [0, 0] \<and>
   send_udp_packet (relay0\<lparr>remote_udpaddr := peer_addr\<rparr>) (Failed ECONNREFUSED, Ok) =
     ([Sendto 3 [] peer_addr,
       Log log_info ''sendto(udp) returned ECONNREFUSED: ignored'',
       Getsockopt_SO_ERROR 3], Running (relay0\<lparr>remote_udpaddr := peer_addr\<rparr>)) \<and>
   send_udp_packet (relay0\<lparr>remote_udpaddr := peer_addr\<rparr>) (Failed (Other_errno 90), Ok) =
     ([Sendto 3 [] peer_addr, Log log_err ''sendto(udp)''], Exited 1)"
proof -
  have h: "ss_family (remote_udpaddr (relay0\<lparr>remote_udpaddr := peer_addr\<rparr>)) \<noteq> [0, 0]"
    by (simp add: peer_addr_def ss_family_def)
  have v: "udp_sock (relay0\<lparr>remote_udpaddr := peer_addr\<rparr>) = 3"
    "take (packet_length (relay0\<lparr>remote_udpaddr := peer_addr\<rparr>))
       (drop (packet_start (relay0\<lparr>remote_udpaddr := peer_addr\<rparr>))
          (buf (relay0\<lparr>remote_udpaddr := peer_addr\<rparr>))) = []"
    by (simp_all add: relay0_def)
  show ?thesis
    using h send_udp_packet_errors [OF h, of Ok "Other_errno 90" "Other_errno 9"] v by simp
qed

text \<open>
  C5, as the claim words it, does not hold: after \<^verbatim>\<open>ECONNREFUSED\<close> the relay ends with
  status 1 when \<^verbatim>\<open>getsockopt\<close> fails.
\<close>

theorem refused_then_getsockopt_fails:
  "send_udp_packet (relay0\<lparr>remote_udpaddr := peer_addr\<rparr>)
     (Failed ECONNREFUSED, Failed (Other_errno 9)) =
   ([Sendto 3 [] peer_addr,
     Log log_info ''sendto(udp) returned ECONNREFUSED: ignored'',
     Getsockopt_SO_ERROR 3,
     Log log_err ''getsockopt(udp, SOL_SOCKET, SO_ERROR)''], Exited 1)"
  by (simp add: send_udp_packet_def emit_def log_printf_def err_sys_def relay0_def
      peer_addr_def ss_family_def)

subsection \<open>The parse buffer\<close>

lemma length_pending:
  "buffer_ok r \<Longrightarrow> length (pending r) = buf_ptr r - packet_start r"
  by (auto simp: pending_def buffer_ok_def offsets_ok_def)

lemma take_pending:
  "n \<le> buf_ptr r - packet_start r \<Longrightarrow>
   take n (drop (packet_start r) (buf r)) = take n (pending r)"
  by (simp add: pending_def min_def)

lemma store_read_fields [simp]:
  "buf_ptr (store_read r bs) = buf_ptr r + length bs"
  "packet_start (store_read r bs) = packet_start r"
  "packet_length (store_read r bs) = packet_length r"
  "state (store_read r bs) = state r"
  "handshake (store_read r bs) = handshake r"
  "remote_udpaddr (store_read r bs) = remote_udpaddr r"
  "udp_sock (store_read r bs) = udp_sock r"
  "expect_handshake (store_read r bs) = expect_handshake r"
  by (simp_all add: store_read_def)

lemma store_read_buffer_ok:
  assumes "buffer_ok r" and "buf_ptr r + length bs \<le> TCPBUFFERSIZE"
  shows "buffer_ok (store_read r bs)"
  using assms by (simp add: buffer_ok_def offsets_ok_def store_read_def)

lemma store_read_pending:
  assumes "buffer_ok r" and "buf_ptr r + length bs \<le> TCPBUFFERSIZE"
  shows "pending (store_read r bs) = pending r @ bs"
proof -
  have ps: "packet_start r \<le> buf_ptr r" and b: "buf_ptr r \<le> length (buf r)"
    using assms by (simp_all add: buffer_ok_def offsets_ok_def)
  have "drop (packet_start r) (buf (store_read r bs)) =
          drop (packet_start r) (take (buf_ptr r) (buf r)) @ bs
            @ drop (buf_ptr r + length bs) (buf r)"
    using ps b by (simp add: store_read_def)
  moreover have "length (drop (packet_start r) (take (buf_ptr r) (buf r)))
                   = buf_ptr r - packet_start r"
    using b by simp
  moreover have "drop (packet_start r) (take (buf_ptr r) (buf r)) = pending r"
    by (simp add: pending_def drop_take)
  ultimately show ?thesis
    using ps by (simp add: pending_def [of "store_read r bs"])
qed

lemma compact_fields [simp]:
  "buf_ptr (compact r) = buf_ptr r - (packet_length r + packet_start r)"
  "packet_start (compact r) = 0"
  "packet_length (compact r) = 2"
  "state (compact r) = reading_length"
  "handshake (compact r) = handshake r"
  "remote_udpaddr (compact r) = remote_udpaddr r"
  "udp_sock (compact r) = udp_sock r"
  "expect_handshake (compact r) = expect_handshake r"
  by (simp_all add: compact_def Let_def)

lemma compact_buffer_ok:
  assumes "buffer_ok r" and "tcp_cond r"
  shows "buffer_ok (compact r)"
proof -
  have c: "packet_start r + packet_length r \<le> buf_ptr r" and b: "buf_ptr r \<le> length (buf r)"
    using assms by (simp_all add: buffer_ok_def offsets_ok_def tcp_cond_def)
  then have "length (buf (compact r)) = length (buf r)"
    by (auto simp: compact_def Let_def)
  with assms c show ?thesis
    by (auto simp: buffer_ok_def offsets_ok_def)
qed

lemma compact_pending:
  assumes "buffer_ok r" and "tcp_cond r"
  shows "pending (compact r) = drop (packet_length r) (pending r)"
proof -
  have c: "packet_start r + packet_length r \<le> buf_ptr r" and b: "buf_ptr r \<le> length (buf r)"
    using assms by (simp_all add: buffer_ok_def offsets_ok_def tcp_cond_def)
  have "pending (compact r) =
          take (buf_ptr r - (packet_start r + packet_length r))
            (drop (packet_start r + packet_length r) (buf r))"
    using c b by (simp add: pending_def compact_def Let_def add.commute)
  also have "\<dots> = drop (packet_length r) (pending r)"
    using c by (simp add: pending_def drop_take add.commute)
  finally show ?thesis .
qed

lemma pending_advance:
  "pending (r\<lparr>packet_start := packet_start r + n, state := st, packet_length := l\<rparr>)
     = drop n (pending r)"
  "pending (r\<lparr>packet_length := l, packet_start := packet_start r + n, state := st\<rparr>)
     = drop n (pending r)"
  by (simp_all add: pending_def drop_take add.commute)

lemma emit_simps [simp]:
  "emit [] res = res"
  "emit ev (ev', out) = (ev @ ev', out)"
  "emit ev (emit ev' res) = emit (ev @ ev') res"
  "fst (emit ev res) = ev @ fst res"
  "snd (emit ev res) = snd res"
  by (simp_all add: emit_def)

lemma tcp_loop_exit:
  "\<not> tcp_cond r \<Longrightarrow> tcp_loop r env k = ([], Running r)"
  by (subst tcp_loop.simps) simp

lemma tcp_loop_step:
  assumes "tcp_cond r" and "state r \<noteq> uninitialized"
    and "tcp_body r (env k) = (ev, Running r')"
  shows "tcp_loop r env k = emit ev (tcp_loop r' env (Suc k))"
  using assms by (subst tcp_loop.simps) simp

lemma tcp_loop_stop:
  assumes "tcp_cond r" and "state r \<noteq> uninitialized"
    and "tcp_body r (env k) = (ev, Exited n)"
  shows "tcp_loop r env k = (ev, Exited n)"
  using assms by (subst tcp_loop.simps) simp

lemma tcp_body_length:
  "state r = reading_length \<Longrightarrow>
   tcp_body r e =
     ([], Running (r\<lparr>packet_length := ntohs (take 2 (drop (packet_start r) (buf r))),
                      packet_start := packet_start r + 2,
                      state := reading_packet\<rparr>))"
  by (simp add: tcp_body_def)

lemma tcp_body_packet:
  "state r = reading_packet \<Longrightarrow> send_udp_packet r e = (ev, Running r) \<Longrightarrow>
   tcp_body r e = (ev, Running (compact r))"
  by (simp add: tcp_body_def)

lemma send_udp_packet_Ok:
  "ss_family (remote_udpaddr r) \<noteq> [0, 0] \<Longrightarrow> fst e = Ok \<Longrightarrow>
   send_udp_packet r e =
     ([Sendto (udp_sock r) (take (packet_length r) (drop (packet_start r) (buf r)))
         (remote_udpaddr r)], Running r)"
  by (simp add: send_udp_packet_def)

subsection \<open>Frames through the parser\<close>

lemma length_htons [simp]: "length (htons n) = 2"
  by (simp add: htons_def)

lemma ntohs_htons: "n < 65536 \<Longrightarrow> ntohs (htons n) = n"
  by (simp add: ntohs_def htons_def unat_of_nat)

lemma datagrams_append [simp]: "datagrams (a @ b) = datagrams a @ datagrams b"
  by (induction a rule: datagrams.induct) simp_all

lemma tcp_init_idem [simp]: "state r \<noteq> uninitialized \<Longrightarrow> tcp_init r = r"
  by (simp add: tcp_init_def)

lemma chunk_nonempty: "buf_ptr r < TCPBUFFERSIZE \<Longrightarrow> s \<noteq> [] \<Longrightarrow> chunk r n s \<noteq> []"
  by (simp add: chunk_def)

lemma chunk_full: "TCPBUFFERSIZE \<le> buf_ptr r \<Longrightarrow> chunk r n s = []"
  by (simp add: chunk_def)

lemma chunk_drop:
  "state r \<noteq> uninitialized \<Longrightarrow>
   drop (min (Suc n) (tcp_read_count r)) s = drop (length (chunk r n s)) s"
  by (auto simp: chunk_def tcp_read_count_def min_def)

lemma chunk_append: "chunk r n s @ drop (length (chunk r n s)) s = s"
  by (auto simp: chunk_def min_def)

lemma chunk_fits: "buf_ptr r < TCPBUFFERSIZE \<Longrightarrow> buf_ptr r + length (chunk r n s) \<le> TCPBUFFERSIZE"
  by (simp add: chunk_def)

lemma tcp_to_udp_chunk:
  assumes "state r \<noteq> uninitialized"
  shows "tcp_to_udp r e (Read_avail (take (Suc n) s)) =
           (if chunk r n s = []
            then log_printf_exit 0 log_notice ''Remote closed the connection''
            else tcp_loop (store_read r (chunk r n s)) e 0)"
proof -
  have t: "take (TCPBUFFERSIZE - buf_ptr r) (take (Suc n) s) = chunk r n s"
    by (simp add: chunk_def min.commute)
  have "tcp_to_udp r e (Read_avail w) =
          (if length (take (TCPBUFFERSIZE - buf_ptr r) w) = 0
           then log_printf_exit 0 log_notice ''Remote closed the connection''
           else tcp_loop (store_read r (take (TCPBUFFERSIZE - buf_ptr r) w)) e 0)" for w
    by (simp only: tcp_to_udp_def Let_def tcp_init_idem [OF assms] read_ret.case)
  from this [of "take (Suc n) s"] show ?thesis
    unfolding t by (simp only: length_0_conv)
qed

lemma length_frame: "length (frame d) = 2 + length d"
  by (simp add: frame_def)

lemma tcp_feed_init:
  assumes "s \<noteq> []"
  shows "tcp_feed r env sched i s = tcp_feed (tcp_init r) env sched i s"
proof -
  have i: "tcp_init (tcp_init r) = tcp_init r" by (simp add: tcp_init_def)
  have "tcp_to_udp (tcp_init r) e rd = tcp_to_udp r e rd" for e rd
    by (simp add: tcp_to_udp_def i)
  moreover have "tcp_read_count (tcp_init r) = tcp_read_count r"
    by (simp add: tcp_read_count_def i)
  ultimately show ?thesis
    using assms by (subst tcp_feed.simps, subst (2) tcp_feed.simps) simp
qed

lemma frames_empty: "concat (map frame ds) = [] \<Longrightarrow> ds = []"
  by (cases ds) (simp_all add: frame_def htons_def)

lemma delivered_Nil [simp]: "delivered A [] []"
  by (simp add: delivered_def)

lemma delivered_append:
  "delivered A ev1 ds1 \<Longrightarrow> delivered A ev2 ds2 \<Longrightarrow> delivered A (ev1 @ ev2) (ds1 @ ds2)"
  by (auto simp: delivered_def replicate_add)

lemma send_udp_packet_total:
  "\<exists>ev. delivered (remote_udpaddr r) ev [take (packet_length r) (drop (packet_start r) (buf r))] \<and>
        send_udp_packet r e =
          (ev, if ss_family (remote_udpaddr r) = [0, 0] \<or> nonfatal e then Running r else Exited 1)"
  by (cases e; cases "fst e"; cases "snd e")
    (auto simp: send_udp_packet_def delivered_def no_peer_log_def nonfatal_def log_printf_def
      emit_def err_sys_def)

lemma frames_length_step:
  assumes inv: "frames_inv A r ds s" and at: "awaits_length r ds s" and c: "tcp_cond r"
  shows "\<exists>r1. tcp_body r e = ([], Running r1) \<and> frames_inv A r1 ds s"
proof -
  have bok: "buffer_ok r" using inv by (simp add: frames_inv_def)
  have st: "state r = reading_length" and pl: "packet_length r = 2"
    and eq: "pending r @ s = concat (map frame ds)"
    using at by (simp_all add: awaits_length_def)
  have b2: "packet_start r + 2 \<le> buf_ptr r" using c pl by (simp add: tcp_cond_def)
  have lp: "length (pending r) = buf_ptr r - packet_start r" using bok by (rule length_pending)
  have "ds \<noteq> []" using eq lp b2 by auto
  then obtain d ds' where ds: "ds = d # ds'" by (cases ds) auto
  have room: "packet_start r + 2 + length d \<le> TCPBUFFERSIZE"
    using at ds by (simp add: awaits_length_def)
  have ld: "length d < 65536"
    using inv ds by (simp add: frames_inv_def UDPBUFFERSIZE_def TCPBUFFERSIZE_def)
  have eq': "pending r @ s = htons (length d) @ d @ concat (map frame ds')"
    using eq ds by (simp add: frame_def)
  have "take 2 (pending r) = take 2 (pending r @ s)" using lp b2 by simp
  also have "\<dots> = htons (length d)" using eq' by simp
  finally have t2: "take 2 (pending r) = htons (length d)" .
  have "take 2 (drop (packet_start r) (buf r)) = take 2 (pending r)"
    using b2 by (intro take_pending) simp
  with t2 ld have n: "ntohs (take 2 (drop (packet_start r) (buf r))) = length d"
    by (simp add: ntohs_htons)
  define r1 where "r1 = r\<lparr>packet_length := length d, packet_start := packet_start r + 2,
                           state := reading_packet\<rparr>"
  have body: "tcp_body r e = ([], Running r1)"
    using st n by (simp add: tcp_body_length r1_def)
  have p1: "pending r1 = drop 2 (pending r)" unfolding r1_def by (rule pending_advance)
  have "pending r1 @ s = drop 2 (pending r @ s)" using p1 lp b2 by simp
  also have "\<dots> = d @ concat (map frame ds')" using eq' by simp
  finally have "awaits_packet r1 ds s" using room by (simp add: awaits_packet_def ds r1_def)
  moreover have "buffer_ok r1"
    using bok b2 by (simp add: buffer_ok_def offsets_ok_def r1_def)
  ultimately have "frames_inv A r1 ds s"
    using inv by (simp add: frames_inv_def r1_def)
  with body show ?thesis by blast
qed

lemma frames_packet_step:
  assumes inv: "frames_inv A r ds s" and at: "awaits_packet r ds s" and c: "tcp_cond r"
  shows "\<exists>ev d ds'. ds = d # ds' \<and> delivered A ev [d] \<and>
           (if ss_family A = [0, 0] \<or> nonfatal e
            then tcp_body r e = (ev, Running (compact r)) \<and> frames_inv A (compact r) ds' s
            else tcp_body r e = (ev, Exited 1))"
proof -
  have bok: "buffer_ok r" and A: "remote_udpaddr r = A"
    using inv by (simp_all add: frames_inv_def)
  from at obtain d ds' where ds: "ds = d # ds'"
    and st: "state r = reading_packet" and pl: "packet_length r = length d"
    and eq: "pending r @ s = d @ concat (map frame ds')"
    by (auto simp: awaits_packet_def split: list.splits)
  have b: "packet_start r + length d \<le> buf_ptr r" using c pl by (simp add: tcp_cond_def)
  have lp: "length (pending r) = buf_ptr r - packet_start r" using bok by (rule length_pending)
  have "take (packet_length r) (drop (packet_start r) (buf r)) = take (packet_length r) (pending r)"
    using b pl by (intro take_pending) simp
  also have "\<dots> = take (length d) (pending r @ s)" using lp b pl by simp
  also have "\<dots> = d" using eq by simp
  finally have payload: "take (packet_length r) (drop (packet_start r) (buf r)) = d" .
  from send_udp_packet_total [of r e] payload A
  obtain ev where dl: "delivered A ev [d]"
    and s: "send_udp_packet r e =
              (ev, if ss_family A = [0, 0] \<or> nonfatal e then Running r else Exited 1)"
    by auto
  show ?thesis
  proof (cases "ss_family A = [0, 0] \<or> nonfatal e")
    case True
    with s have "send_udp_packet r e = (ev, Running r)" by simp
    with st have body: "tcp_body r e = (ev, Running (compact r))" by (rule tcp_body_packet)
    have "pending (compact r) @ s = drop (length d) (pending r @ s)"
      using compact_pending [OF bok c] pl lp b by simp
    also have "\<dots> = concat (map frame ds')" using eq by simp
    finally have "awaits_length (compact r) ds' s"
      using inv ds
      by (auto simp: awaits_length_def frames_inv_def UDPBUFFERSIZE_def TCPBUFFERSIZE_def
          split: list.splits)
    then have "frames_inv A (compact r) ds' s"
      using inv compact_buffer_ok [OF bok c] ds by (simp add: frames_inv_def)
    with body dl ds True show ?thesis by auto
  next
    case False
    with s have "send_udp_packet r e = (ev, Exited 1)" by simp
    with st have "tcp_body r e = (ev, Exited 1)" by (simp add: tcp_body_def)
    with dl ds False show ?thesis by auto
  qed
qed

lemma frames_loop:
  assumes "frames_inv A r ds s"
  shows "\<exists>ev out ds1 ds2. tcp_loop r env k = (ev, out) \<and> ds = ds1 @ ds2 \<and> delivered A ev ds1 \<and>
           ((\<exists>r'. out = Running r' \<and> frames_inv A r' ds2 s \<and> \<not> tcp_cond r') \<or>
            (out = Exited 1 \<and> ss_family A \<noteq> [0, 0] \<and> (\<exists>j. \<not> nonfatal (env j))))"
  using assms
proof (induction "tcp_rank r" arbitrary: r k ds rule: less_induct)
  case less
  note inv = \<open>frames_inv A r ds s\<close>
  show ?case
  proof (cases "tcp_cond r")
    case False
    then have "tcp_loop r env k = ([], Running r)" by (rule tcp_loop_exit)
    with inv False show ?thesis by (intro exI [of _ "[]"] exI [of _ "Running r"] exI [of _ ds]) simp
  next
    case True
    from inv consider (len) "awaits_length r ds s" | (pkt) "awaits_packet r ds s"
      by (auto simp: frames_inv_def)
    then show ?thesis
    proof cases
      case len
      then have st: "state r \<noteq> uninitialized" by (simp add: awaits_length_def)
      from frames_length_step [OF inv len True, of "env k"]
      obtain r1 where body: "tcp_body r (env k) = ([], Running r1)"
        and inv1: "frames_inv A r1 ds s" by blast
      have "tcp_rank r1 < tcp_rank r" using True st body by (rule tcp_body_rank)
      from less.hyps [OF this inv1, of "Suc k"]
      obtain ev out ds1 ds2 where "tcp_loop r1 env (Suc k) = (ev, out)"
        "ds = ds1 @ ds2" "delivered A ev ds1"
        "(\<exists>r'. out = Running r' \<and> frames_inv A r' ds2 s \<and> \<not> tcp_cond r') \<or>
            (out = Exited 1 \<and> ss_family A \<noteq> [0, 0] \<and> (\<exists>j. \<not> nonfatal (env j)))"
        by blast
      moreover have "tcp_loop r env k = emit [] (tcp_loop r1 env (Suc k))"
        using True st body by (rule tcp_loop_step)
      ultimately show ?thesis by (intro exI [of _ ev] exI [of _ out] exI [of _ ds1] exI [of _ ds2]) simp
    next
      case pkt
      then have st: "state r \<noteq> uninitialized" by (simp add: awaits_packet_def)
      from frames_packet_step [OF inv pkt True, of "env k"]
      obtain ev0 d ds' where ds: "ds = d # ds'" and dl: "delivered A ev0 [d]"
        and step: "if ss_family A = [0, 0] \<or> nonfatal (env k)
            then tcp_body r (env k) = (ev0, Running (compact r)) \<and> frames_inv A (compact r) ds' s
            else tcp_body r (env k) = (ev0, Exited 1)"
        by blast
      show ?thesis
      proof (cases "ss_family A = [0, 0] \<or> nonfatal (env k)")
        case False
        with step have "tcp_body r (env k) = (ev0, Exited 1)" by simp
        with True st have "tcp_loop r env k = (ev0, Exited 1)" by (rule tcp_loop_stop)
        moreover have "ds = [d] @ ds'" using ds by simp
        ultimately show ?thesis using dl False
          by (intro exI [of _ ev0] exI [of _ "Exited 1"] exI [of _ "[d]"] exI [of _ ds']) auto
      next
        case ok: True
        with step have body: "tcp_body r (env k) = (ev0, Running (compact r))"
          and inv1: "frames_inv A (compact r) ds' s" by simp_all
        have "tcp_rank (compact r) < tcp_rank r" using True st body by (rule tcp_body_rank)
        from less.hyps [OF this inv1, of "Suc k"]
        obtain ev out ds1 ds2 where l: "tcp_loop (compact r) env (Suc k) = (ev, out)"
          and r: "ds' = ds1 @ ds2" "delivered A ev ds1"
          "(\<exists>r'. out = Running r' \<and> frames_inv A r' ds2 s \<and> \<not> tcp_cond r') \<or>
            (out = Exited 1 \<and> ss_family A \<noteq> [0, 0] \<and> (\<exists>j. \<not> nonfatal (env j)))"
          by blast
        have "tcp_loop r env k = emit ev0 (tcp_loop (compact r) env (Suc k))"
          using True st body by (rule tcp_loop_step)
        with l have "tcp_loop r env k = (ev0 @ ev, out)" by simp
        moreover have "delivered A (ev0 @ ev) ([d] @ ds1)" using dl r(2) by (rule delivered_append)
        moreover have "ds = ([d] @ ds1) @ ds2" using ds r(1) by simp
        ultimately show ?thesis using r(3)
          by (intro exI [of _ "ev0 @ ev"] exI [of _ out] exI [of _ "[d] @ ds1"] exI [of _ ds2])
            simp
      qed
    qed
  qed
qed

lemma frames_inv_done:
  assumes inv: "frames_inv A r ds []" and c: "\<not> tcp_cond r"
  shows "ds = []"
proof -
  have bok: "buffer_ok r" using inv by (simp add: frames_inv_def)
  have ps: "packet_start r \<le> buf_ptr r" using bok by (simp add: buffer_ok_def offsets_ok_def)
  note lp = length_pending [OF bok]
  from inv consider (len) "awaits_length r ds []" | (pkt) "awaits_packet r ds []"
    by (auto simp: frames_inv_def)
  then show ?thesis
  proof cases
    case len
    then have "length (pending r) = length (concat (map frame ds))" and "packet_length r = 2"
      by (simp_all add: awaits_length_def)
    with lp c ps have "length (concat (map frame ds)) < 2" by (simp add: tcp_cond_def)
    then show ?thesis by (cases ds) (simp_all add: length_frame)
  next
    case pkt
    then obtain d ds' where "ds = d # ds'" "packet_length r = length d"
      "pending r = d @ concat (map frame ds')"
      by (auto simp: awaits_packet_def split: list.splits)
    moreover from this have "length d \<le> length (pending r)" by simp
    ultimately have "tcp_cond r" using lp ps by (simp add: tcp_cond_def)
    with c show ?thesis by simp
  qed
qed

lemma frames_inv_room:
  assumes inv: "frames_inv A r ds s" and c: "\<not> tcp_cond r" and ne: "s \<noteq> []"
  shows "buf_ptr r < TCPBUFFERSIZE" and "state r \<noteq> uninitialized"
proof -
  have bok: "buffer_ok r" using inv by (simp add: frames_inv_def)
  have ps: "packet_start r \<le> buf_ptr r" using bok by (simp add: buffer_ok_def offsets_ok_def)
  from inv consider (len) "awaits_length r ds s" | (pkt) "awaits_packet r ds s"
    by (auto simp: frames_inv_def)
  then show "buf_ptr r < TCPBUFFERSIZE"
  proof cases
    case len
    then have eq: "pending r @ s = concat (map frame ds)" and pl: "packet_length r = 2"
      by (simp_all add: awaits_length_def)
    from eq ne obtain d ds' where "ds = d # ds'" by (cases ds) auto
    with len have "packet_start r + 2 + length d \<le> TCPBUFFERSIZE" by (simp add: awaits_length_def)
    with c pl show ?thesis by (simp add: tcp_cond_def)
  next
    case pkt
    then obtain d ds' where "ds = d # ds'" "packet_length r = length d"
      "packet_start r + length d \<le> TCPBUFFERSIZE"
      by (auto simp: awaits_packet_def split: list.splits)
    with c show ?thesis by (simp add: tcp_cond_def)
  qed
  show "state r \<noteq> uninitialized"
    using inv by (auto simp: frames_inv_def awaits_length_def awaits_packet_def)
qed

lemma frames_inv_store:
  assumes inv: "frames_inv A r ds s" and fit: "buf_ptr r + length bs \<le> TCPBUFFERSIZE"
    and s: "bs @ s' = s"
  shows "frames_inv A (store_read r bs) ds s'"
proof -
  have bok: "buffer_ok r" using inv by (simp add: frames_inv_def)
  have p: "pending (store_read r bs) @ s' = pending r @ s"
    using store_read_pending [OF bok fit] s by simp
  show ?thesis
    using inv store_read_buffer_ok [OF bok fit] p
    by (auto simp: frames_inv_def awaits_length_def awaits_packet_def split: list.splits)
qed

lemma frames_feed:
  assumes "frames_inv A r ds s" and "\<not> tcp_cond r"
  shows "\<exists>ev out ds1 ds2. tcp_feed r env sched i s = (ev, out) \<and> ds = ds1 @ ds2 \<and>
           delivered A ev ds1 \<and>
           ((\<exists>r'. out = Running r' \<and> ds2 = []) \<or>
            (out = Exited 1 \<and> ss_family A \<noteq> [0, 0] \<and> (\<exists>i j. \<not> nonfatal (env i j))))"
  using assms
proof (induction "length s" arbitrary: r i ds s rule: less_induct)
  case less
  note inv = \<open>frames_inv A r ds s\<close> and nc = \<open>\<not> tcp_cond r\<close>
  show ?case
  proof (cases "s = []")
    case True
    with inv nc have "ds = []" using frames_inv_done by simp
    moreover have "tcp_feed r env sched i s = ([], Running r)"
      using True by (subst tcp_feed.simps) simp
    ultimately show ?thesis
      by (intro exI [of _ "[]"] exI [of _ "Running r"]) simp
  next
    case False
    define bs where "bs = chunk r (sched i) s"
    note room = frames_inv_room [OF inv nc False]
    have ne: "bs \<noteq> []" unfolding bs_def using room(1) False by (rule chunk_nonempty)
    have rd: "tcp_to_udp r (env i) (Read_avail (take (Suc (sched i)) s)) =
                tcp_loop (store_read r bs) (env i) 0"
      using ne by (simp add: tcp_to_udp_chunk [OF room(2)] bs_def)
    have dr: "drop (min (Suc (sched i)) (tcp_read_count r)) s = drop (length bs) s"
      unfolding bs_def using room(2) by (rule chunk_drop)
    have inv1: "frames_inv A (store_read r bs) ds (drop (length bs) s)"
      using inv chunk_fits [OF room(1)] chunk_append unfolding bs_def
      by (rule frames_inv_store)
    from frames_loop [OF inv1, of "env i" 0]
    obtain ev1 out1 ds1 ds2 where l: "tcp_loop (store_read r bs) (env i) 0 = (ev1, out1)"
      and ds: "ds = ds1 @ ds2" and d1: "delivered A ev1 ds1"
      and o1: "(\<exists>r'. out1 = Running r' \<and> frames_inv A r' ds2 (drop (length bs) s) \<and> \<not> tcp_cond r') \<or>
            (out1 = Exited 1 \<and> ss_family A \<noteq> [0, 0] \<and> (\<exists>j. \<not> nonfatal (env i j)))"
      by blast
    from o1 show ?thesis
    proof
      assume "\<exists>r'. out1 = Running r' \<and> frames_inv A r' ds2 (drop (length bs) s) \<and> \<not> tcp_cond r'"
      then obtain r1 where out1: "out1 = Running r1"
        and inv2: "frames_inv A r1 ds2 (drop (length bs) s)" and nc2: "\<not> tcp_cond r1" by blast
      have "length (drop (length bs) s) < length s" using ne False by (cases bs) auto
      from less.hyps [OF this inv2 nc2, of "Suc i"]
      obtain ev2 out2 ds3 ds4
        where f: "tcp_feed r1 env sched (Suc i) (drop (length bs) s) = (ev2, out2)"
          and ds2: "ds2 = ds3 @ ds4" and d2: "delivered A ev2 ds3"
          and o2: "(\<exists>r'. out2 = Running r' \<and> ds4 = []) \<or>
            (out2 = Exited 1 \<and> ss_family A \<noteq> [0, 0] \<and> (\<exists>i j. \<not> nonfatal (env i j)))"
        by blast
      have "tcp_feed r env sched i s = (ev1 @ ev2, out2)"
        using False rd dr l out1 f by (subst tcp_feed.simps) simp
      moreover have "ds = (ds1 @ ds3) @ ds4" using ds ds2 by simp
      moreover have "delivered A (ev1 @ ev2) (ds1 @ ds3)" using d1 d2 by (rule delivered_append)
      ultimately show ?thesis using o2
        by (intro exI [of _ "ev1 @ ev2"] exI [of _ out2] exI [of _ "ds1 @ ds3"] exI [of _ ds4])
          simp
    next
      assume ex: "out1 = Exited 1 \<and> ss_family A \<noteq> [0, 0] \<and> (\<exists>j. \<not> nonfatal (env i j))"
      then have "tcp_feed r env sched i s = (ev1, Exited 1)"
        using False rd l by (subst tcp_feed.simps) simp
      with ds d1 ex show ?thesis
        by (intro exI [of _ ev1] exI [of _ "Exited 1"] exI [of _ ds1] exI [of _ ds2]) auto
    qed
  qed
qed

lemma frames_feed_start:
  assumes "state r = uninitialized" and "expect_handshake r = 0"
    and "length (buf r) = TCPBUFFERSIZE" and "\<forall>d\<in>set ds. length d \<le> UDPBUFFERSIZE"
  shows "\<exists>ev out ds1 ds2. tcp_feed r env sched i (concat (map frame ds)) = (ev, out) \<and>
           ds = ds1 @ ds2 \<and> delivered (remote_udpaddr r) ev ds1 \<and>
           ((\<exists>r'. out = Running r' \<and> ds2 = []) \<or>
            (out = Exited 1 \<and> ss_family (remote_udpaddr r) \<noteq> [0, 0] \<and>
             (\<exists>i j. \<not> nonfatal (env i j))))"
proof (cases "concat (map frame ds) = []")
  case True
  then have "ds = []" by (rule frames_empty)
  moreover have "tcp_feed r env sched i [] = ([], Running r)" by (subst tcp_feed.simps) simp
  ultimately show ?thesis
    by (intro exI [of _ "[]"] exI [of _ "Running r"]) simp
next
  case False
  have "frames_inv (remote_udpaddr r) (tcp_init r) ds (concat (map frame ds))"
    using assms
    by (auto simp: frames_inv_def awaits_length_def buffer_ok_def offsets_ok_def pending_def
        tcp_init_def UDPBUFFERSIZE_def TCPBUFFERSIZE_def split: list.splits)
  moreover have "\<not> tcp_cond (tcp_init r)"
    using assms(1,2) by (simp add: tcp_cond_def tcp_init_def)
  ultimately show ?thesis
    unfolding tcp_feed_init [OF False, of r env sched i] by (rule frames_feed)
qed

lemma frames_loop_all:
  assumes inv: "frames_inv A r ds []" and peer: "ss_family A \<noteq> [0, 0]"
    and nf: "\<forall>j. nonfatal (env j)"
  shows "datagrams (fst (tcp_loop r env k)) = ds"
proof -
  from frames_loop [OF inv, of env k] nf
  obtain ev r' ds1 ds2 where l: "tcp_loop r env k = (ev, Running r')" and ds: "ds = ds1 @ ds2"
    and dl: "delivered A ev ds1" and inv': "frames_inv A r' ds2 []" and nc: "\<not> tcp_cond r'"
    by auto
  from frames_inv_done [OF inv' nc] ds dl peer l show ?thesis
    by (simp add: delivered_def)
qed

subsection \<open>A frame of length 0\<close>

text \<open>
  C6: a frame whose length field decodes to 0, whatever \<^verbatim>\<open>sendto\<close> and \<^verbatim>\<open>getsockopt\<close>
  return. The parser is reading a length (awaiting 2 bytes) in a buffer of 65536 bytes,
  with \<^verbatim>\<open>buf_ptr\<close> within the buffer and at least two unparsed bytes, the first two
  decoding to 0. The round that reads the length enters \<^verbatim>\<open>reading_packet\<close> with
  \<^verbatim>\<open>packet_length\<close> 0 and without a read, and the loop condition holds at once. With a
  peer address set, the next round hands a datagram of no bytes to \<^verbatim>\<open>sendto\<close> for that
  address, and this is the only datagram of the round. When \<^verbatim>\<open>send_udp_packet\<close> returns
  (no peer address, or a send that succeeds or is refused with the socket error cleared),
  the round ends in \<^verbatim>\<open>compact\<close>: the parser is in \<^verbatim>\<open>reading_length\<close> at the start of the
  buffer, awaiting 2 bytes, and its unparsed bytes are those that followed the length
  field, so the next length read is that of the next frame; the loop goes on from there.
  Otherwise the send is fatal and the process exits with status 1.
\<close>

theorem zero_length_frame_forwarded:
  fixes r :: relay
  defines "r1 \<equiv> r\<lparr>packet_length := 0, packet_start := packet_start r + 2,
                   state := reading_packet\<rparr>"
  assumes st: "state r = reading_length" and pl: "packet_length r = 2"
    and av: "packet_start r + 2 \<le> buf_ptr r"
    and bd: "buf_ptr r \<le> TCPBUFFERSIZE" and lb: "length (buf r) = TCPBUFFERSIZE"
    and z: "ntohs (take 2 (drop (packet_start r) (buf r))) = 0"
  shows "tcp_body r e = ([], Running r1)
       \<and> tcp_cond r1
       \<and> (ss_family (remote_udpaddr r) \<noteq> [0, 0] \<longrightarrow>
            (\<exists>ev. fst (tcp_body r1 e') = Sendto (udp_sock r) [] (remote_udpaddr r) # ev)
            \<and> datagrams (fst (tcp_body r1 e')) = [[]])
       \<and> (ss_family (remote_udpaddr r) \<noteq> [0, 0] \<and> fst e' = Ok \<longrightarrow>
            tcp_body r1 e' = ([Sendto (udp_sock r) [] (remote_udpaddr r)], Running (compact r1)))
       \<and> (ss_family (remote_udpaddr r) = [0, 0] \<or> nonfatal e' \<longrightarrow>
            snd (tcp_body r1 e') = Running (compact r1))
       \<and> (ss_family (remote_udpaddr r) \<noteq> [0, 0] \<and> \<not> nonfatal e' \<longrightarrow>
            snd (tcp_body r1 e') = Exited 1)
       \<and> state (compact r1) = reading_length
       \<and> packet_length (compact r1) = 2
       \<and> packet_start (compact r1) = 0
       \<and> buf_ptr (compact r1) = buf_ptr r - (packet_start r + 2)
       \<and> pending (compact r1) = drop 2 (pending r)
       \<and> (ss_family (remote_udpaddr r) = [0, 0] \<or> nonfatal (env (Suc k)) \<longrightarrow>
            tcp_loop r env k =
              emit (fst (send_udp_packet r1 (env (Suc k))))
                (tcp_loop (compact r1) env (Suc (Suc k))))"
proof -
  have c: "tcp_cond r" using pl av by (simp add: tcp_cond_def)
  have b: "tcp_body r e = ([], Running r1)" for e
    using st z by (simp add: tcp_body_length r1_def)
  have c1: "tcp_cond r1" using av by (simp add: tcp_cond_def r1_def)
  have s1: "state r1 = reading_packet" by (simp add: r1_def)
  have bok1: "buffer_ok r1"
    using av bd lb by (simp add: buffer_ok_def offsets_ok_def r1_def)
  have p1: "pending r1 = drop 2 (pending r)" unfolding r1_def by (rule pending_advance)
  have pc: "pending (compact r1) = drop 2 (pending r)"
    using compact_pending [OF bok1 c1] p1 by (simp add: r1_def)
  have flds: "state (compact r1) = reading_length" "packet_length (compact r1) = 2"
    "packet_start (compact r1) = 0" "buf_ptr (compact r1) = buf_ptr r - (packet_start r + 2)"
    by (simp_all add: r1_def)
  have payload: "take (packet_length r1) (drop (packet_start r1) (buf r1)) = []"
    by (simp add: r1_def)
  have send: "send_udp_packet r1 x =
          (if ss_family (remote_udpaddr r) = [0, 0]
           then ([Log log_info ''Ignoring a packet for a still unknown UDP destination!''],
                 Running r1)
           else emit [Sendto (udp_sock r) [] (remote_udpaddr r)]
             (case fst x of
                Ok \<Rightarrow> ([], Running r1)
              | Failed er \<Rightarrow>
                  if er \<noteq> ECONNREFUSED then err_sys ''sendto(udp)''
                  else emit [Log log_info ''sendto(udp) returned ECONNREFUSED: ignored'',
                             Getsockopt_SO_ERROR (udp_sock r)]
                    (case snd x of
                       Failed er' \<Rightarrow> err_sys ''getsockopt(udp, SOL_SOCKET, SO_ERROR)''
                     | Ok \<Rightarrow> ([], Running r1))))" for x
    unfolding r1_def by (simp add: send_udp_packet_def log_printf_def split: sysret.splits)
  have body1: "tcp_body r1 x =
          (case send_udp_packet r1 x of
             (ev, Running r') \<Rightarrow> (ev, Running (compact r'))
           | (ev, out) \<Rightarrow> (ev, out))" for x
    using s1 by (simp add: tcp_body_def)
  have run: "send_udp_packet r1 x = (fst (send_udp_packet r1 x), Running r1)"
    if "ss_family (remote_udpaddr r) = [0, 0] \<or> nonfatal x" for x
    using that
    by (cases x; cases "fst x"; cases "snd x")
      (auto simp: send nonfatal_def err_sys_def)
  have A: "(\<exists>ev. fst (tcp_body r1 e') = Sendto (udp_sock r) [] (remote_udpaddr r) # ev)
            \<and> datagrams (fst (tcp_body r1 e')) = [[]]"
    if "ss_family (remote_udpaddr r) \<noteq> [0, 0]"
    using that
    by (cases e'; cases "fst e'"; cases "snd e'")
      (auto simp: body1 send err_sys_def)
  have B: "tcp_body r1 e' = ([Sendto (udp_sock r) [] (remote_udpaddr r)], Running (compact r1))"
    if "ss_family (remote_udpaddr r) \<noteq> [0, 0] \<and> fst e' = Ok"
    using that by (simp add: body1 send)
  have C: "snd (tcp_body r1 e') = Running (compact r1)"
    if "ss_family (remote_udpaddr r) = [0, 0] \<or> nonfatal e'"
  proof -
    from run [OF that] s1
    have "tcp_body r1 e' = (fst (send_udp_packet r1 e'), Running (compact r1))"
      by (rule tcp_body_packet [rotated])
    then show ?thesis by simp
  qed
  have D: "snd (tcp_body r1 e') = Exited 1"
    if "ss_family (remote_udpaddr r) \<noteq> [0, 0] \<and> \<not> nonfatal e'"
    using that
    by (cases e'; cases "fst e'"; cases "snd e'")
      (auto simp: body1 send nonfatal_def err_sys_def)
  have E: "tcp_loop r env k =
              emit (fst (send_udp_packet r1 (env (Suc k))))
                (tcp_loop (compact r1) env (Suc (Suc k)))"
    if "ss_family (remote_udpaddr r) = [0, 0] \<or> nonfatal (env (Suc k))"
  proof -
    from run [OF that] s1
    have b1: "tcp_body r1 (env (Suc k)) =
                (fst (send_udp_packet r1 (env (Suc k))), Running (compact r1))"
      by (rule tcp_body_packet [rotated])
    have "tcp_loop r env k = tcp_loop r1 env (Suc k)"
      using tcp_loop_step [of r env k "[]" r1] c b st by simp
    also have "\<dots> = emit (fst (send_udp_packet r1 (env (Suc k))))
                     (tcp_loop (compact r1) env (Suc (Suc k)))"
      using tcp_loop_step [of r1 env "Suc k" _ "compact r1"] c1 b1 s1 by simp
    finally show ?thesis .
  qed
  from b [of e] c1 A B C D flds pc E show ?thesis by blast
qed

theorem zero_length_frame_forwarded_witness:
  "datagrams (fst (tcp_loop (store_read (tcp_init client_relay) [0, 0, 0, 1, 0x2a])
                    (\<lambda>k. (Ok, Ok)) 0)) = [[], [0x2a]]"
proof -
  define r where "r = store_read (tcp_init client_relay) [0, 0, 0, 1, 0x2a]"
  define r1 where "r1 = r\<lparr>packet_length := 0, packet_start := packet_start r + 2,
                           state := reading_packet\<rparr>"
  have i: "state (tcp_init client_relay) = reading_length"
    "packet_length (tcp_init client_relay) = 2" "packet_start (tcp_init client_relay) = 0"
    "buf_ptr (tcp_init client_relay) = 0" "length (buf (tcp_init client_relay)) = TCPBUFFERSIZE"
    "remote_udpaddr (tcp_init client_relay) = peer_addr"
    by (simp_all add: tcp_init_def)
  have bok0: "buffer_ok (tcp_init client_relay)"
    by (simp add: buffer_ok_def offsets_ok_def i)
  have fit: "buf_ptr (tcp_init client_relay) + length [0, 0, 0, 1, 0x2a :: byte] \<le> TCPBUFFERSIZE"
    by (simp add: i TCPBUFFERSIZE_def)
  have bok: "buffer_ok r" unfolding r_def using bok0 fit by (rule store_read_buffer_ok)
  have pr: "pending r = [0, 0, 0, 1, 0x2a]"
    unfolding r_def using store_read_pending [OF bok0 fit] by (simp add: pending_def i)
  have h: "state r = reading_length" "packet_length r = 2" "packet_start r + 2 \<le> buf_ptr r"
    "buf_ptr r \<le> TCPBUFFERSIZE" "length (buf r) = TCPBUFFERSIZE"
    using bok by (simp_all add: r_def i buffer_ok_def offsets_ok_def)
  have ps: "packet_start r = 0" and A: "remote_udpaddr r = peer_addr"
    by (simp_all add: r_def i)
  have "take 2 (drop (packet_start r) (buf r)) = take 2 (pending r)"
    using h(3) by (intro take_pending) simp
  then have z: "ntohs (take 2 (drop (packet_start r) (buf r))) = 0"
    by (simp add: pr ntohs_def)
  note t = zero_length_frame_forwarded [OF h z, of "(Ok, Ok)" "(Ok, Ok)" "\<lambda>k. (Ok, Ok)" 0,
      folded r1_def]
  have nf: "nonfatal (Ok, Ok)" by (simp add: nonfatal_def)
  have pc: "pending (compact r1) = [0, 1, 0x2a]" using t pr by simp
  have bok1: "buffer_ok r1" using bok h(3) by (simp add: buffer_ok_def offsets_ok_def r1_def)
  have c1: "tcp_cond r1" using t by simp
  have fi: "frames_inv peer_addr (compact r1) [[0x2a]] []"
    using compact_buffer_ok [OF bok1 c1] pc A
    by (simp add: frames_inv_def awaits_length_def frame_def htons_def r1_def
        UDPBUFFERSIZE_def TCPBUFFERSIZE_def)
  have rest: "datagrams (fst (tcp_loop (compact r1) (\<lambda>k. (Ok, Ok)) (Suc (Suc 0)))) = [[0x2a]]"
    using nf by (intro frames_loop_all [OF fi peer_addr_family]) simp
  have "datagrams (fst (send_udp_packet r1 (Ok, Ok))) = [[]]"
    by (simp add: send_udp_packet_def r1_def A)
  with t nf rest show ?thesis unfolding r_def [symmetric] by simp
qed

subsection \<open>Encoding and decoding\<close>

lemma udp_to_tcp_sends:
  assumes "length d \<le> UDPBUFFERSIZE"
  shows "sends (fst (udp_to_tcp c (Recv d a n) sr)) = (if d = [] then [] else [frame d])"
  using assms by (cases sr) (simp_all add: udp_to_tcp_def Let_def frame_def err_sys_def)

lemma udp_to_tcp_one_send:
  assumes "d \<noteq> []" and "length d \<le> UDPBUFFERSIZE"
  shows "udp_to_tcp c (Recv d a n) Ok =
           ([Send (tcp_sock c) (frame d)],
            Running (c\<lparr>remote_udpaddr := take n a @ drop n (remote_udpaddr c)\<rparr>))"
  using assms by (simp add: udp_to_tcp_def Let_def frame_def)

lemma frame_bytes:
  "frame d = word_of_nat (length d div 256) # word_of_nat (length d mod 256) # d"
  by (simp add: frame_def htons_def word_of_nat_eq_iff take_bit_eq_mod)

text \<open>
  C1: payloads \<open>ds\<close> of at most 65534 bytes each, the empty one included. The encoding of
  a payload \<open>d\<close> is \<open>frame d\<close>: the length in two bytes, high byte first, and then \<open>d\<close>.
  \<^verbatim>\<open>udp_to_tcp\<close> writes exactly that for every datagram it forwards, in one \<^verbatim>\<open>send\<close>,
  whatever that \<^verbatim>\<open>send\<close> returns (for a datagram of no bytes it makes no \<^verbatim>\<open>send\<close>). A
  relay that has not read yet (\<^verbatim>\<open>uninitialized\<close>, its buffer of 65536 bytes) and expects
  no handshake reads the concatenation of the encodings in reads of any sizes. With a peer address and no fatal failure of a datagram send, it keeps running
  and the datagrams it sends are exactly \<open>ds\<close>, in order. With no peer address it keeps
  running and drops each payload with its log line. In every case the run ends, running
  or exited with status 1, and with a peer address the datagrams sent are an initial part
  of \<open>ds\<close>. (A single datagram is the list of one.)
\<close>

theorem roundtrip:
  assumes "\<forall>d\<in>set ds. length d \<le> UDPBUFFERSIZE"
    and "state r = uninitialized" and "expect_handshake r = 0"
    and "length (buf r) = TCPBUFFERSIZE"
  shows "(\<forall>d\<in>set ds.
            frame d = word_of_nat (length d div 256) # word_of_nat (length d mod 256) # d
          \<and> (\<forall>c a n sr. sends (fst (udp_to_tcp c (Recv d a n) sr)) =
                           (if d = [] then [] else [frame d]))
          \<and> (\<forall>c a n. d \<noteq> [] \<longrightarrow>
                udp_to_tcp c (Recv d a n) Ok =
                  ([Send (tcp_sock c) (frame d)],
                   Running (c\<lparr>remote_udpaddr := take n a @ drop n (remote_udpaddr c)\<rparr>))))
       \<and> (ss_family (remote_udpaddr r) \<noteq> [0, 0] \<and> (\<forall>i j. nonfatal (env i j)) \<longrightarrow>
            (\<exists>ev r'. tcp_feed r env sched i (concat (map frame ds)) = (ev, Running r')
                    \<and> datagrams ev = ds))
       \<and> (ss_family (remote_udpaddr r) = [0, 0] \<longrightarrow>
            (\<exists>r'. tcp_feed r env sched i (concat (map frame ds))
                     = (replicate (length ds)
                          (Log log_info ''Ignoring a packet for a still unknown UDP destination!''),
                        Running r')))
       \<and> (\<exists>ev out ds'. tcp_feed r env sched i (concat (map frame ds)) = (ev, out) \<and>
             ((\<exists>r'. out = Running r') \<or> out = Exited 1) \<and>
             (ss_family (remote_udpaddr r) \<noteq> [0, 0] \<longrightarrow> ds = datagrams ev @ ds'))"
proof -
  from frames_feed_start [OF assms(2,3,4,1), of env sched i]
  obtain ev out ds1 ds2 where f: "tcp_feed r env sched i (concat (map frame ds)) = (ev, out)"
    and ds: "ds = ds1 @ ds2" and dl: "delivered (remote_udpaddr r) ev ds1"
    and o: "(\<exists>r'. out = Running r' \<and> ds2 = []) \<or>
            (out = Exited 1 \<and> ss_family (remote_udpaddr r) \<noteq> [0, 0] \<and>
             (\<exists>i j. \<not> nonfatal (env i j)))"
    by blast
  have 1: "\<forall>d\<in>set ds.
            frame d = word_of_nat (length d div 256) # word_of_nat (length d mod 256) # d
          \<and> (\<forall>c a n sr. sends (fst (udp_to_tcp c (Recv d a n) sr)) =
                           (if d = [] then [] else [frame d]))
          \<and> (\<forall>c a n. d \<noteq> [] \<longrightarrow>
                udp_to_tcp c (Recv d a n) Ok =
                  ([Send (tcp_sock c) (frame d)],
                   Running (c\<lparr>remote_udpaddr := take n a @ drop n (remote_udpaddr c)\<rparr>)))"
  proof
    fix d assume "d \<in> set ds"
    with assms(1) have l: "length d \<le> UDPBUFFERSIZE" by simp
    show "frame d = word_of_nat (length d div 256) # word_of_nat (length d mod 256) # d
          \<and> (\<forall>c a n sr. sends (fst (udp_to_tcp c (Recv d a n) sr)) =
                           (if d = [] then [] else [frame d]))
          \<and> (\<forall>c a n. d \<noteq> [] \<longrightarrow>
                udp_to_tcp c (Recv d a n) Ok =
                  ([Send (tcp_sock c) (frame d)],
                   Running (c\<lparr>remote_udpaddr := take n a @ drop n (remote_udpaddr c)\<rparr>)))"
      using frame_bytes [of d] udp_to_tcp_sends [OF l] udp_to_tcp_one_send [OF _ l]
      by (intro conjI allI impI) simp_all
  qed
  have 2: "\<exists>ev r'. tcp_feed r env sched i (concat (map frame ds)) = (ev, Running r') \<and>
             datagrams ev = ds"
    if "ss_family (remote_udpaddr r) \<noteq> [0, 0] \<and> (\<forall>i j. nonfatal (env i j))"
    using that f ds dl o by (auto simp: delivered_def)
  have 3: "\<exists>r'. tcp_feed r env sched i (concat (map frame ds))
                     = (replicate (length ds)
                          (Log log_info ''Ignoring a packet for a still unknown UDP destination!''),
                        Running r')"
    if "ss_family (remote_udpaddr r) = [0, 0]"
    using that f ds dl o by (auto simp: delivered_def no_peer_log_def)
  have 4: "\<exists>ev out ds'. tcp_feed r env sched i (concat (map frame ds)) = (ev, out) \<and>
             ((\<exists>r'. out = Running r') \<or> out = Exited 1) \<and>
             (ss_family (remote_udpaddr r) \<noteq> [0, 0] \<longrightarrow> ds = datagrams ev @ ds')"
    using f ds dl o by (intro exI [of _ ev] exI [of _ out] exI [of _ ds2]) (auto simp: delivered_def)
  from 1 2 3 4 show ?thesis by blast
qed

theorem roundtrip_witness:
  "concat (map frame [[1, 2, 3], [], [0xff]]) = [0, 3, 1, 2, 3, 0, 0, 0, 1, 0xff]
   \<and> datagrams (fst (tcp_feed client_relay (\<lambda>i k. (Ok, Ok)) (\<lambda>i. 0) 0
                      [0, 3, 1, 2, 3, 0, 0, 0, 1, 0xff])) = [[1, 2, 3], [], [0xff]]"
proof -
  have fr: "concat (map frame [[1, 2, 3], [], [0xff]]) = [0, 3, 1, 2, 3, 0, 0, 0, 1, 0xff]"
    by (simp add: frame_def htons_def)
  have h1: "\<forall>d\<in>set [[1, 2, 3], [], [0xff :: byte]]. length d \<le> UDPBUFFERSIZE"
    by (simp add: UDPBUFFERSIZE_def TCPBUFFERSIZE_def)
  have h2: "state client_relay = uninitialized" "expect_handshake client_relay = 0"
    "length (buf client_relay) = TCPBUFFERSIZE"
    by simp_all
  have peer: "ss_family (remote_udpaddr client_relay) \<noteq> [0, 0]" by simp
  have nf: "\<forall>i j. nonfatal ((\<lambda>i k. (Ok, Ok)) (i::nat) (j::nat))" by (simp add: nonfatal_def)
  from roundtrip [OF h1 h2, where env = "\<lambda>i k. (Ok, Ok)" and sched = "\<lambda>i. 0" and i = 0]
    peer nf
  have "\<exists>ev r'. tcp_feed client_relay (\<lambda>i k. (Ok, Ok)) (\<lambda>i. 0) 0
                   (concat (map frame [[1, 2, 3], [], [0xff]])) = (ev, Running r')
               \<and> datagrams ev = [[1, 2, 3], [], [0xff]]"
    by blast
  then show ?thesis unfolding fr by (auto simp: fr)
qed

subsection \<open>The offsets stay within the buffer\<close>

lemma tcp_body_parser_ok:
  assumes "parser_ok r" and "tcp_cond r" and "tcp_body r e = (ev, Running r')"
  shows "parser_ok r'"
proof (cases "state r")
  case uninitialized
  with assms show ?thesis by (simp add: parser_ok_def)
next
  case reading_handshake
  with assms show ?thesis
    by (auto simp: tcp_body_def parser_ok_def buffer_ok_def offsets_ok_def tcp_cond_def
        log_printf_exit_def split: if_splits)
next
  case reading_length
  with assms show ?thesis
    by (auto simp: tcp_body_def parser_ok_def buffer_ok_def offsets_ok_def tcp_cond_def)
next
  case reading_packet
  with assms obtain ev0 r0 where s: "send_udp_packet r e = (ev0, Running r0)"
    and r': "r' = compact r0"
    by (auto simp: tcp_body_def split: prod.splits outcome.splits)
  from s have "r0 = r" by (rule send_udp_packet_Running)
  with r' assms(1,2) compact_buffer_ok [of r] show ?thesis
    by (simp add: parser_ok_def)
qed

lemma tcp_loop_parser_ok:
  assumes "parser_ok r" and "tcp_loop r env k = (ev, Running r')"
  shows "parser_ok r'"
  using assms
proof (induction "tcp_rank r" arbitrary: r k ev rule: less_induct)
  case less
  show ?case
  proof (cases "tcp_cond r")
    case False
    with less.prems show ?thesis by (simp add: tcp_loop_exit)
  next
    case True
    have st: "state r \<noteq> uninitialized" using less.prems(1) by (simp add: parser_ok_def)
    obtain ev0 out0 where b: "tcp_body r (env k) = (ev0, out0)" by (cases "tcp_body r (env k)")
    show ?thesis
    proof (cases out0)
      case (Running r1)
      with b have b1: "tcp_body r (env k) = (ev0, Running r1)" by simp
      have ok1: "parser_ok r1" using less.prems(1) True b1 by (rule tcp_body_parser_ok)
      have rk: "tcp_rank r1 < tcp_rank r" using True st b1 by (rule tcp_body_rank)
      have "tcp_loop r env k = emit ev0 (tcp_loop r1 env (Suc k))"
        using True st b1 by (rule tcp_loop_step)
      with less.prems(2) obtain ev1 where "tcp_loop r1 env (Suc k) = (ev1, Running r')"
        by (cases "tcp_loop r1 env (Suc k)") (auto simp: emit_def)
      with less.hyps [OF rk ok1] show ?thesis by blast
    next
      case (Exited n)
      with b True st less.prems(2) show ?thesis by (subst (asm) tcp_loop.simps) simp
    next
      case Hangs
      with b True st less.prems(2) show ?thesis by (subst (asm) tcp_loop.simps) simp
    qed
  qed
qed

lemma tcp_init_parser_ok:
  "(state r = uninitialized \<and> length (buf r) = TCPBUFFERSIZE) \<or> parser_ok r \<Longrightarrow>
   parser_ok (tcp_init r)"
  by (auto simp: tcp_init_def parser_ok_def buffer_ok_def offsets_ok_def)

lemma tcp_to_udp_parser_ok:
  assumes "(state r = uninitialized \<and> length (buf r) = TCPBUFFERSIZE) \<or> parser_ok r"
    and "tcp_to_udp r env rd = (ev, Running r')"
  shows "parser_ok r'"
proof -
  have ok: "parser_ok (tcp_init r)" using assms(1) by (rule tcp_init_parser_ok)
  from assms(2) obtain waiting where rd: "rd = Read_avail waiting"
    by (cases rd) (auto simp: tcp_to_udp_def err_sys_def)
  define bs where "bs = take (TCPBUFFERSIZE - buf_ptr (tcp_init r)) waiting"
  from assms(2) have l: "tcp_loop (store_read (tcp_init r) bs) env 0 = (ev, Running r')"
    by (auto simp: tcp_to_udp_def rd bs_def Let_def log_printf_exit_def split: if_splits)
  have "buf_ptr (tcp_init r) \<le> TCPBUFFERSIZE"
    using ok by (simp add: parser_ok_def buffer_ok_def offsets_ok_def)
  then have "buf_ptr (tcp_init r) + length bs \<le> TCPBUFFERSIZE" by (simp add: bs_def)
  with ok store_read_buffer_ok [of "tcp_init r" bs]
  have "parser_ok (store_read (tcp_init r) bs)"
    by (simp add: parser_ok_def)
  then show ?thesis using l by (rule tcp_loop_parser_ok)
qed

lemma tcp_calls_parser_ok:
  assumes "(state r = uninitialized \<and> length (buf r) = TCPBUFFERSIZE) \<or> parser_ok r"
    and "tcp_calls r xs = (ev, Running r')" and "xs \<noteq> []"
  shows "parser_ok r'"
  using assms
proof (induction xs arbitrary: r ev)
  case Nil
  then show ?case by simp
next
  case (Cons x xs)
  obtain ev0 out0 where c: "tcp_to_udp r (fst x) (snd x) = (ev0, out0)"
    by (cases "tcp_to_udp r (fst x) (snd x)")
  with Cons.prems(2) obtain r1 where out0: "out0 = Running r1"
    by (cases out0) auto
  have ok1: "parser_ok r1" using Cons.prems(1) c unfolding out0 by (rule tcp_to_udp_parser_ok)
  show ?case
  proof (cases "xs = []")
    case True
    with Cons.prems(2) c out0 ok1 show ?thesis by simp
  next
    case False
    from Cons.prems(2) c out0 obtain ev1 where "tcp_calls r1 xs = (ev1, Running r')"
      by (cases "tcp_calls r1 xs") (auto simp: emit_def)
    with Cons.IH [of r1 ev1] ok1 False show ?thesis by simp
  qed
qed

text \<open>
  C9: after any sequence of calls of \<^verbatim>\<open>tcp_to_udp\<close> on a relay that starts
  uninitialised, whatever \<^verbatim>\<open>read\<close> and the datagram sends return, the offsets satisfy
  \<^verbatim>\<open>packet_start <= buf_ptr <= TCPBUFFERSIZE\<close>, the buffer still has its 65536 bytes
  (nothing was stored or moved beyond it), and the next \<^verbatim>\<open>read\<close> is asked for exactly
  the space that is left.
\<close>

theorem parse_buffer_bounds:
  assumes "state r = uninitialized" and "length (buf r) = TCPBUFFERSIZE" and "xs \<noteq> []"
    and "tcp_calls r xs = (ev, Running r')"
  shows "packet_start r' \<le> buf_ptr r' \<and> buf_ptr r' \<le> TCPBUFFERSIZE
       \<and> length (buf r') = TCPBUFFERSIZE
       \<and> buf_ptr r' + tcp_read_count r' = TCPBUFFERSIZE"
proof -
  have "parser_ok r'"
    using assms by (intro tcp_calls_parser_ok [of r xs ev r']) simp_all
  then show ?thesis
    by (simp add: parser_ok_def buffer_ok_def offsets_ok_def tcp_read_count_def)
qed

lemma first_call_short:
  "tcp_calls relay0 [(\<lambda>k. (Ok, Ok), Read_avail [0])] =
     ([], Running (store_read (tcp_init relay0) [0]))"
proof -
  have "\<not> tcp_cond (store_read (tcp_init relay0) [0])"
    by (simp add: tcp_cond_def tcp_init_def)
  then have "tcp_loop (store_read (tcp_init relay0) [0]) (\<lambda>k. (Ok, Ok)) 0 =
          ([], Running (store_read (tcp_init relay0) [0]))" by (rule tcp_loop_exit)
  moreover have "buf_ptr (tcp_init relay0) = 0"
    by (simp add: tcp_init_def)
  ultimately show ?thesis by (simp add: tcp_to_udp_def Let_def TCPBUFFERSIZE_def)
qed

theorem parse_buffer_bounds_witness:
  "tcp_calls relay0 [(\<lambda>k. (Ok, Ok), Read_avail [0])] =
     ([], Running (store_read (tcp_init relay0) [0])) \<and>
   packet_start (store_read (tcp_init relay0) [0]) \<le> buf_ptr (store_read (tcp_init relay0) [0]) \<and>
   buf_ptr (store_read (tcp_init relay0) [0]) \<le> TCPBUFFERSIZE"
  using first_call_short parse_buffer_bounds [OF _ _ _ first_call_short] by simp
subsection \<open>The handshake is compared once\<close>

lemma handshake_checks_simps [simp]:
  "handshake_checks [] = 0"
  "handshake_checks (a @ b) = handshake_checks a + handshake_checks b"
  by (simp_all add: handshake_checks_def)

lemma send_udp_packet_no_check:
  "send_udp_packet r e = (ev, out) \<Longrightarrow> handshake_checks ev = 0"
  by (auto simp: send_udp_packet_def handshake_checks_def emit_def log_printf_def err_sys_def
      split: if_splits sysret.splits)

lemma tcp_body_checks:
  assumes "tcp_body r e = (ev, out)"
  shows "handshake_checks ev \<le> checks_left r"
    and "out = Running r' \<Longrightarrow> handshake_checks ev + checks_left r' \<le> checks_left r"
    and "out = Running r' \<Longrightarrow> state r \<noteq> uninitialized \<Longrightarrow>
           state r' = reading_length \<or> state r' = reading_packet"
proof -
  have "handshake_checks ev \<le> checks_left r \<and>
        (out = Running r' \<longrightarrow> handshake_checks ev + checks_left r' \<le> checks_left r \<and>
           (state r \<noteq> uninitialized \<longrightarrow>
              state r' = reading_length \<or> state r' = reading_packet))"
  proof (cases "state r")
    case uninitialized
    with assms show ?thesis by (auto simp: tcp_body_def)
  next
    case reading_handshake
    with assms show ?thesis
      by (auto simp: tcp_body_def checks_left_def handshake_checks_def log_printf_exit_def
          log_printf_def split: if_splits)
  next
    case reading_length
    with assms show ?thesis by (auto simp: tcp_body_def checks_left_def)
  next
    case reading_packet
    obtain ev0 out0 where s: "send_udp_packet r e = (ev0, out0)"
      by (cases "send_udp_packet r e")
    from send_udp_packet_no_check [OF s] have "handshake_checks ev0 = 0" .
    with assms s reading_packet show ?thesis
      by (auto simp: tcp_body_def checks_left_def split: outcome.splits)
  qed
  then show "handshake_checks ev \<le> checks_left r"
    and "out = Running r' \<Longrightarrow> handshake_checks ev + checks_left r' \<le> checks_left r"
    and "out = Running r' \<Longrightarrow> state r \<noteq> uninitialized \<Longrightarrow>
           state r' = reading_length \<or> state r' = reading_packet"
    by simp_all
qed

lemma tcp_loop_checks:
  assumes "tcp_loop r env k = (ev, out)"
  shows "handshake_checks ev \<le> checks_left r \<and>
         (\<forall>r'. out = Running r' \<longrightarrow>
            handshake_checks ev + checks_left r' \<le> checks_left r \<and>
            (state r \<noteq> uninitialized \<longrightarrow> state r' \<noteq> uninitialized))"
  using assms
proof (induction "tcp_rank r" arbitrary: r k ev out rule: less_induct)
  case less
  show ?case
  proof (cases "tcp_cond r \<and> state r \<noteq> uninitialized")
    case False
    with less.prems show ?thesis by (subst (asm) tcp_loop.simps) (auto split: if_splits)
  next
    case True
    obtain ev0 out0 where b: "tcp_body r (env k) = (ev0, out0)" by (cases "tcp_body r (env k)")
    note bc = tcp_body_checks [OF b]
    show ?thesis
    proof (cases out0)
      case (Running r1)
      with b have b1: "tcp_body r (env k) = (ev0, Running r1)" by simp
      have rk: "tcp_rank r1 < tcp_rank r" using True b1 by (intro tcp_body_rank) auto
      obtain ev1 out1 where l1: "tcp_loop r1 env (Suc k) = (ev1, out1)"
        by (cases "tcp_loop r1 env (Suc k)")
      have "tcp_loop r env k = emit ev0 (tcp_loop r1 env (Suc k))"
        using True b1 by (intro tcp_loop_step) auto
      with less.prems l1 have ev: "ev = ev0 @ ev1" and out: "out = out1" by simp_all
      have "state r1 \<noteq> uninitialized" using bc(3) [OF Running] True by auto
      with less.hyps [OF rk l1] bc(2) [OF Running] show ?thesis
        unfolding ev out by auto
    next
      case (Exited n)
      with b True less.prems have "ev = ev0" "out = Exited n"
        by (subst (asm) tcp_loop.simps, simp)+
      with bc(1) show ?thesis by simp
    next
      case Hangs
      with b True less.prems have "ev = ev0" "out = Hangs"
        by (subst (asm) tcp_loop.simps, simp)+
      with bc(1) show ?thesis by simp
    qed
  qed
qed

lemma tcp_to_udp_checks:
  assumes "tcp_to_udp r env rd = (ev, out)"
  shows "handshake_checks ev \<le> checks_left r \<and>
         (\<forall>r'. out = Running r' \<longrightarrow>
            handshake_checks ev + checks_left r' \<le> checks_left r \<and> state r' \<noteq> uninitialized)"
proof (cases rd)
  case (Read_failed e)
  with assms show ?thesis by (auto simp: tcp_to_udp_def err_sys_def handshake_checks_def)
next
  case (Read_avail waiting)
  define bs where "bs = take (TCPBUFFERSIZE - buf_ptr (tcp_init r)) waiting"
  have cl: "checks_left (store_read (tcp_init r) bs) = checks_left r"
    "state (store_read (tcp_init r) bs) \<noteq> uninitialized"
    by (auto simp: checks_left_def tcp_init_def)
  show ?thesis
  proof (cases "bs = []")
    case True
    with assms Read_avail show ?thesis
      by (auto simp: tcp_to_udp_def bs_def Let_def log_printf_exit_def handshake_checks_def)
  next
    case False
    with assms Read_avail have l: "tcp_loop (store_read (tcp_init r) bs) env 0 = (ev, out)"
      by (simp add: tcp_to_udp_def bs_def Let_def)
    from tcp_loop_checks [OF l] cl show ?thesis by simp
  qed
qed

lemma tcp_calls_checks:
  assumes "tcp_calls r xs = (ev, out)"
  shows "handshake_checks ev \<le> checks_left r \<and>
         (\<forall>r'. out = Running r' \<longrightarrow>
            handshake_checks ev + checks_left r' \<le> checks_left r \<and>
            (xs \<noteq> [] \<longrightarrow> state r' \<noteq> uninitialized))"
  using assms
proof (induction xs arbitrary: r ev out)
  case Nil
  then show ?case by auto
next
  case (Cons x xs)
  obtain ev0 out0 where c: "tcp_to_udp r (fst x) (snd x) = (ev0, out0)"
    by (cases "tcp_to_udp r (fst x) (snd x)")
  note tc = tcp_to_udp_checks [OF c]
  show ?case
  proof (cases out0)
    case (Running r1)
    obtain ev1 out1 where c1: "tcp_calls r1 xs = (ev1, out1)" by (cases "tcp_calls r1 xs")
    with Cons.prems c Running have ev: "ev = ev0 @ ev1" and out: "out = out1" by simp_all
    from tc Running have t1: "handshake_checks ev0 + checks_left r1 \<le> checks_left r"
      and s1: "state r1 \<noteq> uninitialized" by simp_all
    have keep: "state r' \<noteq> uninitialized" if "out1 = Running r'" for r'
    proof (cases "xs = []")
      case True
      with c1 that s1 show ?thesis by simp
    next
      case False
      with Cons.IH [OF c1] that show ?thesis by simp
    qed
    from Cons.IH [OF c1] t1 keep show ?thesis unfolding ev out by auto
  next
    case (Exited n)
    with Cons.prems c tc show ?thesis by auto
  next
    case Hangs
    with Cons.prems c tc show ?thesis by auto
  qed
qed

text \<open>
  C10: in any sequence of calls of \<^verbatim>\<open>tcp_to_udp\<close> the handshake is compared at most
  once. From \<^verbatim>\<open>reading_length\<close> or \<^verbatim>\<open>reading_packet\<close>, and from \<^verbatim>\<open>uninitialized\<close>
  with \<^verbatim>\<open>expect_handshake\<close> 0, it is never compared and every later state is one of
  those two; after the one comparison the state is one of those two; a round of the loop
  leads only to those two; and initialisation gives \<^verbatim>\<open>reading_handshake\<close> only from
  \<^verbatim>\<open>uninitialized\<close> with \<^verbatim>\<open>expect_handshake\<close> set.
\<close>

theorem handshake_checked_once:
  assumes "tcp_calls r xs = (ev, out)"
  shows "handshake_checks ev \<le> 1
       \<and> (state r = reading_length \<or> state r = reading_packet \<or>
            (state r = uninitialized \<and> expect_handshake r = 0) \<longrightarrow>
          handshake_checks ev = 0 \<and>
          (\<forall>r'. out = Running r' \<and> xs \<noteq> [] \<longrightarrow>
                  state r' = reading_length \<or> state r' = reading_packet))
       \<and> (\<forall>r'. out = Running r' \<and> handshake_checks ev = 1 \<longrightarrow>
                  state r' = reading_length \<or> state r' = reading_packet)
       \<and> (\<forall>e ev' r'. tcp_body r e = (ev', Running r') \<and> state r \<noteq> uninitialized \<longrightarrow>
                  state r' = reading_length \<or> state r' = reading_packet)
       \<and> (state (tcp_init r) = reading_handshake \<longleftrightarrow>
            state r = reading_handshake \<or> (state r = uninitialized \<and> expect_handshake r \<noteq> 0))"
proof -
  note cc = tcp_calls_checks [OF assms]
  have le1: "checks_left r \<le> 1" by (simp add: checks_left_def)
  have a: "handshake_checks ev \<le> 1" using cc le1 by simp
  have st: "state r' = reading_length \<or> state r' = reading_packet"
    if "checks_left r' = 0" "state r' \<noteq> uninitialized" for r'
    using that by (cases "state r'") (auto simp: checks_left_def split: if_splits)
  have b: "handshake_checks ev = 0 \<and>
          (\<forall>r'. out = Running r' \<and> xs \<noteq> [] \<longrightarrow>
                  state r' = reading_length \<or> state r' = reading_packet)"
    if "state r = reading_length \<or> state r = reading_packet \<or>
            (state r = uninitialized \<and> expect_handshake r = 0)"
  proof -
    from that have "checks_left r = 0" by (auto simp: checks_left_def)
    with cc st show ?thesis by auto
  qed
  have c: "state r' = reading_length \<or> state r' = reading_packet"
    if "out = Running r'" "handshake_checks ev = 1" for r'
  proof -
    from cc that le1 have "checks_left r' = 0" by auto
    moreover have "xs \<noteq> []" using assms that by (cases xs) auto
    ultimately show ?thesis using cc that st by auto
  qed
  have d: "state r' = reading_length \<or> state r' = reading_packet"
    if "tcp_body r e = (ev', Running r')" "state r \<noteq> uninitialized" for e ev' r'
    using tcp_body_checks(3) [OF that(1) refl that(2)] .
  have e: "state (tcp_init r) = reading_handshake \<longleftrightarrow>
            state r = reading_handshake \<or> (state r = uninitialized \<and> expect_handshake r \<noteq> 0)"
    by (auto simp: tcp_init_def)
  from a b c d e show ?thesis by blast
qed

theorem handshake_checked_once_witness:
  "tcp_calls relay0 [(\<lambda>k. (Ok, Ok), Read_avail [0])] =
     ([], Running (store_read (tcp_init relay0) [0])) \<and>
   (state (store_read (tcp_init relay0) [0]) = reading_length \<or>
    state (store_read (tcp_init relay0) [0]) = reading_packet)"
  using first_call_short handshake_checked_once [OF first_call_short] by simp

subsection \<open>The handshake on the stream\<close>

lemma tcp_body_handshake:
  assumes "state r = reading_handshake"
  shows "tcp_body r e =
           (if take 32 (drop (packet_start r) (buf r)) \<noteq> take 32 (handshake r)
            then ([Log log_info ''Received a bad handshake, exiting''], Exited 0)
            else ([Log log_debug ''Received a good handshake''],
                  Running (r\<lparr>packet_start := packet_start r + 32, state := reading_length,
                              packet_length := 2\<rparr>)))"
  using assms by (simp add: tcp_body_def log_printf_exit_def log_printf_def)

lemma at_handshake_store:
  assumes "at_handshake r S s" and "buf_ptr r + length bs \<le> TCPBUFFERSIZE" and "bs @ s' = s"
  shows "at_handshake (store_read r bs) S s'"
proof -
  have bok: "buffer_ok r" using assms(1) by (simp add: at_handshake_def)
  from store_read_pending [OF bok assms(2)] store_read_buffer_ok [OF bok assms(2)] assms(1,3)
  show ?thesis by (auto simp: at_handshake_def)
qed

lemma at_handshake_first32:
  assumes "at_handshake r S s" and "tcp_cond r"
  shows "take 32 (drop (packet_start r) (buf r)) = take 32 S"
proof -
  have bok: "buffer_ok r" and ps: "packet_start r = 0" and pl: "packet_length r = 32"
    and eq: "pending r @ s = S"
    using assms(1) by (simp_all add: at_handshake_def)
  have b: "32 \<le> buf_ptr r" using assms(2) ps pl by (simp add: tcp_cond_def)
  have "take 32 (drop (packet_start r) (buf r)) = take 32 (pending r)"
    using b ps by (intro take_pending) simp
  also have "\<dots> = take 32 (pending r @ s)" using length_pending [OF bok] ps b by simp
  finally show ?thesis using eq by simp
qed

lemma handshake_reject_feed:
  assumes "at_handshake r S s" and "\<not> tcp_cond r" and "32 \<le> length S"
    and "take 32 S \<noteq> handshake r"
  shows "tcp_feed r env sched i s = ([Log log_info ''Received a bad handshake, exiting''], Exited 0)"
  using assms
proof (induction "length s" arbitrary: r i s rule: less_induct)
  case less
  note at = \<open>at_handshake r S s\<close> and nc = \<open>\<not> tcp_cond r\<close>
  have bok: "buffer_ok r" and st: "state r = reading_handshake" and ps: "packet_start r = 0"
    and pl: "packet_length r = 32" and eq: "pending r @ s = S"
    and lh: "length (handshake r) = 32"
    using at by (simp_all add: at_handshake_def)
  have b: "buf_ptr r < 32" using nc ps pl by (simp add: tcp_cond_def)
  have "length (pending r) < 32" using length_pending [OF bok] b by simp
  with eq less.prems(3) have ne: "s \<noteq> []" by auto
  have room: "buf_ptr r < TCPBUFFERSIZE" using b by (simp add: TCPBUFFERSIZE_def)
  have un: "state r \<noteq> uninitialized" using st by simp
  define bs where "bs = chunk r (sched i) s"
  have bne: "bs \<noteq> []" unfolding bs_def using room ne by (rule chunk_nonempty)
  have rd: "tcp_to_udp r (env i) (Read_avail (take (Suc (sched i)) s)) =
              tcp_loop (store_read r bs) (env i) 0"
    using bne by (simp add: tcp_to_udp_chunk [OF un] bs_def)
  have dr: "drop (min (Suc (sched i)) (tcp_read_count r)) s = drop (length bs) s"
    unfolding bs_def using un by (rule chunk_drop)
  have at1: "at_handshake (store_read r bs) S (drop (length bs) s)"
    using at chunk_fits [OF room] chunk_append unfolding bs_def by (rule at_handshake_store)
  show ?case
  proof (cases "tcp_cond (store_read r bs)")
    case True
    from at_handshake_first32 [OF at1 True] less.prems(4) lh
    have "take 32 (drop (packet_start (store_read r bs)) (buf (store_read r bs)))
            \<noteq> take 32 (handshake (store_read r bs))" by simp
    then have "tcp_body (store_read r bs) (env i 0) =
            ([Log log_info ''Received a bad handshake, exiting''], Exited 0)"
      using st by (simp add: tcp_body_handshake)
    then have "tcp_loop (store_read r bs) (env i) 0 =
            ([Log log_info ''Received a bad handshake, exiting''], Exited 0)"
      using True st by (intro tcp_loop_stop) simp_all
    with rd ne show ?thesis by (subst tcp_feed.simps) simp
  next
    case False
    then have l: "tcp_loop (store_read r bs) (env i) 0 = ([], Running (store_read r bs))"
      by (rule tcp_loop_exit)
    have "length (drop (length bs) s) < length s" using bne ne by (cases bs) auto
    from less.hyps [OF this at1 False less.prems(3)] less.prems(4)
    have "tcp_feed (store_read r bs) env sched (Suc i) (drop (length bs) s) =
            ([Log log_info ''Received a bad handshake, exiting''], Exited 0)" by simp
    with rd dr l ne show ?thesis by (subst tcp_feed.simps) simp
  qed
qed

lemma handshake_accept_feed:
  assumes "at_handshake r S s" and "\<not> tcp_cond r" and "S = handshake r"
  shows "\<exists>r'. tcp_feed r env sched i s = ([Log log_debug ''Received a good handshake''], Running r')
            \<and> state r' = reading_length \<and> packet_start r' = 32 \<and> buf_ptr r' = 32
            \<and> packet_length r' = 2"
  using assms
proof (induction "length s" arbitrary: r i s rule: less_induct)
  case less
  note at = \<open>at_handshake r S s\<close> and nc = \<open>\<not> tcp_cond r\<close>
  have bok: "buffer_ok r" and st: "state r = reading_handshake" and ps: "packet_start r = 0"
    and pl: "packet_length r = 32" and eq: "pending r @ s = S"
    and lh: "length (handshake r) = 32"
    using at by (simp_all add: at_handshake_def)
  have lS: "length S = 32" using less.prems(3) lh by simp
  have b: "buf_ptr r < 32" using nc ps pl by (simp add: tcp_cond_def)
  have "length (pending r) < 32" using length_pending [OF bok] b by simp
  with eq lS have ne: "s \<noteq> []" by auto
  have room: "buf_ptr r < TCPBUFFERSIZE" using b by (simp add: TCPBUFFERSIZE_def)
  have un: "state r \<noteq> uninitialized" using st by simp
  define bs where "bs = chunk r (sched i) s"
  define r1 where "r1 = store_read r bs"
  have bne: "bs \<noteq> []" unfolding bs_def using room ne by (rule chunk_nonempty)
  have rd: "tcp_to_udp r (env i) (Read_avail (take (Suc (sched i)) s)) = tcp_loop r1 (env i) 0"
    using bne by (simp add: tcp_to_udp_chunk [OF un] bs_def r1_def)
  have dr: "drop (min (Suc (sched i)) (tcp_read_count r)) s = drop (length bs) s"
    unfolding bs_def using un by (rule chunk_drop)
  have at1: "at_handshake r1 S (drop (length bs) s)"
    unfolding r1_def
    using at chunk_fits [OF room] chunk_append unfolding bs_def by (rule at_handshake_store)
  have st1: "state r1 = reading_handshake" and ps1: "packet_start r1 = 0"
    and pl1: "packet_length r1 = 32" and bok1: "buffer_ok r1"
    and eq1: "pending r1 @ drop (length bs) s = S"
    using at1 by (simp_all add: at_handshake_def)
  show ?case
  proof (cases "tcp_cond r1")
    case True
    have "32 \<le> length (pending r1)"
      using True length_pending [OF bok1] ps1 pl1 by (simp add: tcp_cond_def)
    moreover have "length (pending r1) + length (drop (length bs) s) = 32"
      using eq1 lS by (metis length_append)
    ultimately have "length (drop (length bs) s) = 0" and "length (pending r1) = 32"
      by simp_all
    then have rest: "drop (length bs) s = []" and b1: "buf_ptr r1 = 32"
      using length_pending [OF bok1] ps1 True pl1 by (simp_all add: tcp_cond_def)
    define r2 where "r2 = r1\<lparr>packet_start := packet_start r1 + 32, state := reading_length,
                              packet_length := 2\<rparr>"
    from at_handshake_first32 [OF at1 True] less.prems(3) lS
    have "take 32 (drop (packet_start r1) (buf r1)) = take 32 (handshake r1)"
      by (simp add: r1_def)
    then have body: "tcp_body r1 (env i 0) = ([Log log_debug ''Received a good handshake''], Running r2)"
      using st1 by (simp add: tcp_body_handshake r2_def)
    have "\<not> tcp_cond r2" using b1 ps1 by (simp add: tcp_cond_def r2_def)
    then have "tcp_loop r2 (env i) (Suc 0) = ([], Running r2)" by (rule tcp_loop_exit)
    moreover have "tcp_loop r1 (env i) 0 = emit [Log log_debug ''Received a good handshake'']
                     (tcp_loop r2 (env i) (Suc 0))"
      using True st1 body by (intro tcp_loop_step) simp_all
    ultimately have l: "tcp_loop r1 (env i) 0 =
                          ([Log log_debug ''Received a good handshake''], Running r2)" by simp
    have "tcp_feed r2 env sched (Suc i) [] = ([], Running r2)" by (subst tcp_feed.simps) simp
    with rd dr l ne rest have "tcp_feed r env sched i s =
            ([Log log_debug ''Received a good handshake''], Running r2)"
      by (subst tcp_feed.simps) simp
    moreover have "state r2 = reading_length \<and> packet_start r2 = 32 \<and> buf_ptr r2 = 32
            \<and> packet_length r2 = 2"
      using b1 ps1 by (simp add: r2_def)
    ultimately show ?thesis by blast
  next
    case False
    then have l: "tcp_loop r1 (env i) 0 = ([], Running r1)" by (rule tcp_loop_exit)
    have "length (drop (length bs) s) < length s" using bne ne by (cases bs) auto
    from less.hyps [OF this at1 False] less.prems(3)
    obtain r' where "tcp_feed r1 env sched (Suc i) (drop (length bs) s) =
            ([Log log_debug ''Received a good handshake''], Running r')"
      "state r' = reading_length \<and> packet_start r' = 32 \<and> buf_ptr r' = 32 \<and> packet_length r' = 2"
      by (auto simp: r1_def)
    with rd dr l ne show ?thesis by (subst tcp_feed.simps) simp
  qed
qed

lemma at_handshake_init:
  assumes "state r = uninitialized" and "expect_handshake r \<noteq> 0"
    and "length (handshake r) = 32" and "length (buf r) = TCPBUFFERSIZE"
  shows "at_handshake (tcp_init r) S S" and "\<not> tcp_cond (tcp_init r)"
    and "handshake (tcp_init r) = handshake r"
  using assms
  by (simp_all add: at_handshake_def tcp_init_def buffer_ok_def offsets_ok_def pending_def
      tcp_cond_def)

lemma handshake_frames_feed:
  assumes "at_handshake r S s" and "\<not> tcp_cond r"
    and "handshake r = H" and "remote_udpaddr r = A"
    and "S = H @ concat (map frame ds)"
    and "\<forall>d\<in>set ds. length d \<le> UDPBUFFERSIZE"
    and "ds \<noteq> [] \<longrightarrow> 34 + length (hd ds) \<le> TCPBUFFERSIZE"
  shows "\<exists>ev out ds1 ds2.
           tcp_feed r env sched i s = (Log log_debug ''Received a good handshake'' # ev, out) \<and>
           ds = ds1 @ ds2 \<and> delivered A ev ds1 \<and>
           ((\<exists>r'. out = Running r' \<and> ds2 = []) \<or>
            (out = Exited 1 \<and> ss_family A \<noteq> [0, 0] \<and> (\<exists>i j. \<not> nonfatal (env i j))))"
  using assms(1-4)
proof (induction "length s" arbitrary: r i s rule: less_induct)
  case less
  note at = \<open>at_handshake r S s\<close> and nc = \<open>\<not> tcp_cond r\<close>
  note S = assms(5) and len = assms(6) and first = assms(7)
  have bok: "buffer_ok r" and st: "state r = reading_handshake" and ps: "packet_start r = 0"
    and pl: "packet_length r = 32" and eq: "pending r @ s = S"
    and lh: "length (handshake r) = 32"
    using at by (simp_all add: at_handshake_def)
  have lH: "length H = 32" using lh less.prems(3) by simp
  have lS: "32 \<le> length S" using S lH by simp
  have b: "buf_ptr r < 32" using nc ps pl by (simp add: tcp_cond_def)
  have "length (pending r) < 32" using length_pending [OF bok] b by simp
  with eq lS have ne: "s \<noteq> []" by auto
  have room: "buf_ptr r < TCPBUFFERSIZE" using b by (simp add: TCPBUFFERSIZE_def)
  have un: "state r \<noteq> uninitialized" using st by simp
  define bs where "bs = chunk r (sched i) s"
  define r1 where "r1 = store_read r bs"
  define s1 where "s1 = drop (length bs) s"
  have bne: "bs \<noteq> []" unfolding bs_def using room ne by (rule chunk_nonempty)
  have rd: "tcp_to_udp r (env i) (Read_avail (take (Suc (sched i)) s)) = tcp_loop r1 (env i) 0"
    using bne by (simp add: tcp_to_udp_chunk [OF un] bs_def r1_def)
  have dr: "drop (min (Suc (sched i)) (tcp_read_count r)) s = s1"
    unfolding bs_def s1_def using un by (rule chunk_drop)
  have at1: "at_handshake r1 S s1"
    unfolding r1_def s1_def
    using at chunk_fits [OF room] chunk_append unfolding bs_def by (rule at_handshake_store)
  have st1: "state r1 = reading_handshake" and ps1: "packet_start r1 = 0"
    and pl1: "packet_length r1 = 32" and bok1: "buffer_ok r1"
    and eq1: "pending r1 @ s1 = S"
    using at1 by (simp_all add: at_handshake_def)
  have H1: "handshake r1 = H" and A1: "remote_udpaddr r1 = A"
    using less.prems(3,4) by (simp_all add: r1_def)
  have shorter: "length s1 < length s" unfolding s1_def using bne ne by (cases bs) auto
  show ?case
  proof (cases "tcp_cond r1")
    case False
    then have l: "tcp_loop r1 (env i) 0 = ([], Running r1)" by (rule tcp_loop_exit)
    from less.hyps [OF shorter at1 False H1 A1, of "Suc i"]
    obtain ev out ds1 ds2
      where "tcp_feed r1 env sched (Suc i) s1 =
               (Log log_debug ''Received a good handshake'' # ev, out)"
        and "ds = ds1 @ ds2" and "delivered A ev ds1"
        and "(\<exists>r'. out = Running r' \<and> ds2 = []) \<or>
            (out = Exited 1 \<and> ss_family A \<noteq> [0, 0] \<and> (\<exists>i j. \<not> nonfatal (env i j)))"
      by blast
    moreover from this(1) rd dr l ne
    have "tcp_feed r env sched i s = (Log log_debug ''Received a good handshake'' # ev, out)"
      by (subst tcp_feed.simps) simp
    ultimately show ?thesis by blast
  next
    case True
    have b1: "32 \<le> buf_ptr r1" using True ps1 pl1 by (simp add: tcp_cond_def)
    have lp1: "32 \<le> length (pending r1)" using length_pending [OF bok1] ps1 b1 by simp
    define r2 where "r2 = r1\<lparr>packet_start := packet_start r1 + 32, state := reading_length,
                              packet_length := 2\<rparr>"
    from at_handshake_first32 [OF at1 True] S lH H1
    have "take 32 (drop (packet_start r1) (buf r1)) = take 32 (handshake r1)" by simp
    then have body: "tcp_body r1 (env i 0) =
                       ([Log log_debug ''Received a good handshake''], Running r2)"
      using st1 by (simp add: tcp_body_handshake r2_def)
    have l1: "tcp_loop r1 (env i) 0 = emit [Log log_debug ''Received a good handshake'']
                     (tcp_loop r2 (env i) (Suc 0))"
      using True st1 body by (intro tcp_loop_step) simp_all
    have p2: "pending r2 = drop 32 (pending r1)" unfolding r2_def by (rule pending_advance)
    have "pending r2 @ s1 = drop 32 (pending r1 @ s1)" using p2 lp1 by simp
    also have "\<dots> = concat (map frame ds)" using eq1 S lH by simp
    finally have eq2: "pending r2 @ s1 = concat (map frame ds)" .
    have bok2: "buffer_ok r2"
      using bok1 b1 ps1 by (simp add: buffer_ok_def offsets_ok_def r2_def)
    have al: "awaits_length r2 ds s1"
      using eq2 first ps1 by (cases ds) (simp_all add: awaits_length_def r2_def)
    have inv2: "frames_inv A r2 ds s1"
      using bok2 A1 len al by (simp add: frames_inv_def r2_def)
    from frames_loop [OF inv2, of "env i" "Suc 0"]
    obtain ev1 out1 ds1 ds2 where l2: "tcp_loop r2 (env i) (Suc 0) = (ev1, out1)"
      and ds: "ds = ds1 @ ds2" and d1: "delivered A ev1 ds1"
      and o1: "(\<exists>r'. out1 = Running r' \<and> frames_inv A r' ds2 s1 \<and> \<not> tcp_cond r') \<or>
            (out1 = Exited 1 \<and> ss_family A \<noteq> [0, 0] \<and> (\<exists>j. \<not> nonfatal (env i j)))"
      by blast
    have l: "tcp_loop r1 (env i) 0 = (Log log_debug ''Received a good handshake'' # ev1, out1)"
      using l1 l2 by simp
    from o1 show ?thesis
    proof
      assume "\<exists>r'. out1 = Running r' \<and> frames_inv A r' ds2 s1 \<and> \<not> tcp_cond r'"
      then obtain r3 where out1: "out1 = Running r3"
        and inv3: "frames_inv A r3 ds2 s1" and nc3: "\<not> tcp_cond r3" by blast
      from frames_feed [OF inv3 nc3, of env sched "Suc i"]
      obtain ev2 out2 ds3 ds4
        where f: "tcp_feed r3 env sched (Suc i) s1 = (ev2, out2)"
          and ds2: "ds2 = ds3 @ ds4" and d2: "delivered A ev2 ds3"
          and o2: "(\<exists>r'. out2 = Running r' \<and> ds4 = []) \<or>
            (out2 = Exited 1 \<and> ss_family A \<noteq> [0, 0] \<and> (\<exists>i j. \<not> nonfatal (env i j)))"
        by blast
      have "tcp_feed r env sched i s =
              (Log log_debug ''Received a good handshake'' # ev1 @ ev2, out2)"
        using ne rd dr l out1 f by (subst tcp_feed.simps) simp
      moreover have "ds = (ds1 @ ds3) @ ds4" using ds ds2 by simp
      moreover have "delivered A (ev1 @ ev2) (ds1 @ ds3)" using d1 d2 by (rule delivered_append)
      ultimately show ?thesis using o2
        by (intro exI [of _ "ev1 @ ev2"] exI [of _ out2] exI [of _ "ds1 @ ds3"] exI [of _ ds4])
          simp
    next
      assume ex: "out1 = Exited 1 \<and> ss_family A \<noteq> [0, 0] \<and> (\<exists>j. \<not> nonfatal (env i j))"
      then have "tcp_feed r env sched i s =
                   (Log log_debug ''Received a good handshake'' # ev1, Exited 1)"
        using ne rd l by (subst tcp_feed.simps) simp
      with ds d1 ex show ?thesis
        by (intro exI [of _ ev1] exI [of _ "Exited 1"] exI [of _ ds1] exI [of _ ds2]) auto
    qed
  qed
qed

lemma handshake_call:
  assumes "state r = uninitialized" and "expect_handshake r \<noteq> 0"
    and "length (handshake r) = 32" and "length (buf r) = TCPBUFFERSIZE"
    and "length rest \<le> TCPBUFFERSIZE - 32"
  defines "r1 \<equiv> (store_read (tcp_init r) (handshake r @ rest))
                   \<lparr>packet_start := 32, state := reading_length, packet_length := 2\<rparr>"
  shows "tcp_to_udp r env (Read_avail (handshake r @ rest)) =
           emit [Log log_debug ''Received a good handshake''] (tcp_loop r1 env (Suc 0))"
    and "pending r1 = rest"
proof -
  note init = at_handshake_init [OF assms(1-4)]
  define r0 where "r0 = store_read (tcp_init r) (handshake r @ rest)"
  have i: "buf_ptr (tcp_init r) = 0" "state (tcp_init r) = reading_handshake"
    "packet_start (tcp_init r) = 0" "packet_length (tcp_init r) = 32"
    using assms(1,2) by (simp_all add: tcp_init_def)
  have bok: "buffer_ok (tcp_init r)" using init(1) [of "[]"] by (simp add: at_handshake_def)
  have fit: "buf_ptr (tcp_init r) + length (handshake r @ rest) \<le> TCPBUFFERSIZE"
    using assms(3,5) i by (simp add: TCPBUFFERSIZE_def)
  have tk: "take (TCPBUFFERSIZE - buf_ptr (tcp_init r)) (handshake r @ rest) = handshake r @ rest"
    using fit by simp
  have rd: "tcp_to_udp r env (Read_avail (handshake r @ rest)) = tcp_loop r0 env 0"
  proof -
    have "handshake r @ rest \<noteq> []" using assms(3) by auto
    then show ?thesis
      unfolding r0_def
      by (simp only: tcp_to_udp_def Let_def read_ret.case tk length_0_conv if_False)
  qed
  have p0: "pending r0 = handshake r @ rest"
    unfolding r0_def using store_read_pending [OF bok fit] i by (simp add: pending_def)
  have bok0: "buffer_ok r0" unfolding r0_def using bok fit by (rule store_read_buffer_ok)
  have f0: "state r0 = reading_handshake" "packet_start r0 = 0" "packet_length r0 = 32"
    "buf_ptr r0 = 32 + length rest" "handshake r0 = handshake r"
    using i assms(3) init(3) by (simp_all add: r0_def)
  have c0: "tcp_cond r0" using f0 by (simp add: tcp_cond_def)
  have "take 32 (drop (packet_start r0) (buf r0)) = take 32 (pending r0)"
    using f0 by (intro take_pending) simp
  then have "take 32 (drop (packet_start r0) (buf r0)) = take 32 (handshake r0)"
    using p0 assms(3) f0 by simp
  then have body: "tcp_body r0 (env 0) = ([Log log_debug ''Received a good handshake''], Running r1)"
    using f0 by (simp add: tcp_body_handshake r1_def r0_def)
  have "tcp_loop r0 env 0 = emit [Log log_debug ''Received a good handshake'']
                     (tcp_loop r1 env (Suc 0))"
    using c0 f0 body by (intro tcp_loop_step) simp_all
  with rd show "tcp_to_udp r env (Read_avail (handshake r @ rest)) =
           emit [Log log_debug ''Received a good handshake''] (tcp_loop r1 env (Suc 0))" by simp
  have "r1 = r0\<lparr>packet_start := packet_start r0 + 32, state := reading_length,
                 packet_length := 2\<rparr>"
    using f0 by (simp add: r1_def r0_def)
  then have "pending r1 = drop 32 (pending r0)" by (simp only: pending_advance)
  then show "pending r1 = rest" using p0 assms(3) by simp
qed

text \<open>
  C4: a relay that expects a handshake reads a stream in reads of any sizes. If the first
  32 bytes differ from its token at some position, it logs the bad handshake and exits
  with status 0, having done nothing else. If the stream is the token, it logs the good
  handshake and is left in \<^verbatim>\<open>reading_length\<close> with the 32 bytes consumed
  (\<^verbatim>\<open>packet_start = buf_ptr = 32\<close>), awaiting 2 bytes. If one read returns the token
  followed by further bytes \<open>rest\<close> (at most 65504, what the buffer holds), the call logs
  the good handshake and its loop goes on in \<^verbatim>\<open>reading_length\<close> behind the token, the
  unparsed bytes being exactly \<open>rest\<close>. And if the stream is the token followed by the
  frames of payloads \<open>ds\<close> (of at most 65534 bytes each, the first of at most 65502), in
  reads of any sizes, with a peer address and no fatal failure of a datagram send, the
  relay logs the good handshake and then sends exactly \<open>ds\<close>.
\<close>

theorem handshake_strictness:
  fixes r :: relay and rest :: "byte list"
  defines "r1 \<equiv> (store_read (tcp_init r) (handshake r @ rest))
                   \<lparr>packet_start := 32, state := reading_length, packet_length := 2\<rparr>"
  assumes "state r = uninitialized" and "expect_handshake r \<noteq> 0"
    and "length (handshake r) = 32" and "length (buf r) = TCPBUFFERSIZE"
  shows "(32 \<le> length s \<and> (\<exists>j<32. s ! j \<noteq> handshake r ! j) \<longrightarrow>
            tcp_feed r env sched i s =
              ([Log log_info ''Received a bad handshake, exiting''], Exited 0))
       \<and> (\<exists>r'. tcp_feed r env sched i (handshake r) =
                  ([Log log_debug ''Received a good handshake''], Running r')
              \<and> state r' = reading_length \<and> packet_start r' = 32 \<and> buf_ptr r' = 32
              \<and> packet_length r' = 2)
       \<and> (length rest \<le> TCPBUFFERSIZE - 32 \<longrightarrow>
            tcp_to_udp r (env i) (Read_avail (handshake r @ rest)) =
              emit [Log log_debug ''Received a good handshake''] (tcp_loop r1 (env i) (Suc 0))
            \<and> pending r1 = rest)
       \<and> ((\<forall>d\<in>set ds. length d \<le> UDPBUFFERSIZE)
            \<and> (ds \<noteq> [] \<longrightarrow> length (hd ds) \<le> TCPBUFFERSIZE - 34)
            \<and> ss_family (remote_udpaddr r) \<noteq> [0, 0] \<and> (\<forall>i j. nonfatal (env i j)) \<longrightarrow>
            (\<exists>ev r'. tcp_feed r env sched i (handshake r @ concat (map frame ds)) =
                       (Log log_debug ''Received a good handshake'' # ev, Running r')
                    \<and> datagrams ev = ds))"
proof -
  note h = assms(2-5)
  note init = at_handshake_init [OF h]
  have A: "32 \<le> length s \<and> (\<exists>j<32. s ! j \<noteq> handshake r ! j) \<longrightarrow>
            tcp_feed r env sched i s =
              ([Log log_info ''Received a bad handshake, exiting''], Exited 0)"
  proof
    assume a: "32 \<le> length s \<and> (\<exists>j<32. s ! j \<noteq> handshake r ! j)"
    then obtain j where j: "j < 32" "s ! j \<noteq> handshake r ! j" by blast
    have "take 32 s \<noteq> handshake r"
    proof
      assume "take 32 s = handshake r"
      then have "take 32 s ! j = handshake r ! j" by simp
      with j show False by simp
    qed
    then have "take 32 s \<noteq> handshake (tcp_init r)" using init(3) by simp
    from handshake_reject_feed [OF init(1) init(2) _ this, of env sched i] a
    have "tcp_feed (tcp_init r) env sched i s =
            ([Log log_info ''Received a bad handshake, exiting''], Exited 0)" by simp
    moreover have "s \<noteq> []" using a by auto
    from tcp_feed_init [OF this, of r env sched i]
    have "tcp_feed r env sched i s = tcp_feed (tcp_init r) env sched i s" .
    ultimately show "tcp_feed r env sched i s =
            ([Log log_info ''Received a bad handshake, exiting''], Exited 0)"
      by simp
  qed
  have hne: "handshake r \<noteq> []" using h(3) by auto
  from handshake_accept_feed [OF init(1) init(2), of "handshake r" env sched i] init(3)
    tcp_feed_init [OF hne, of r env sched i]
  have B: "\<exists>r'. tcp_feed r env sched i (handshake r) =
                  ([Log log_debug ''Received a good handshake''], Running r')
              \<and> state r' = reading_length \<and> packet_start r' = 32 \<and> buf_ptr r' = 32
              \<and> packet_length r' = 2"
    by simp
  have C: "length rest \<le> TCPBUFFERSIZE - 32 \<longrightarrow>
            tcp_to_udp r (env i) (Read_avail (handshake r @ rest)) =
              emit [Log log_debug ''Received a good handshake''] (tcp_loop r1 (env i) (Suc 0))
            \<and> pending r1 = rest"
  proof
    assume l: "length rest \<le> TCPBUFFERSIZE - 32"
    from handshake_call [OF h l]
    show "tcp_to_udp r (env i) (Read_avail (handshake r @ rest)) =
              emit [Log log_debug ''Received a good handshake''] (tcp_loop r1 (env i) (Suc 0))
            \<and> pending r1 = rest"
      by (simp add: r1_def)
  qed
  have D: "\<exists>ev r'. tcp_feed r env sched i (handshake r @ concat (map frame ds)) =
                       (Log log_debug ''Received a good handshake'' # ev, Running r')
                    \<and> datagrams ev = ds"
    if a: "(\<forall>d\<in>set ds. length d \<le> UDPBUFFERSIZE)
            \<and> (ds \<noteq> [] \<longrightarrow> length (hd ds) \<le> TCPBUFFERSIZE - 34)
            \<and> ss_family (remote_udpaddr r) \<noteq> [0, 0] \<and> (\<forall>i j. nonfatal (env i j))"
  proof -
    define S where "S = handshake r @ concat (map frame ds)"
    have ne: "S \<noteq> []" using hne by (simp add: S_def)
    have A1: "remote_udpaddr (tcp_init r) = remote_udpaddr r"
      using h(1) by (simp add: tcp_init_def)
    have first: "ds \<noteq> [] \<longrightarrow> 34 + length (hd ds) \<le> TCPBUFFERSIZE"
      using a by (simp add: TCPBUFFERSIZE_def)
    from a have len: "\<forall>d\<in>set ds. length d \<le> UDPBUFFERSIZE" by simp
    from handshake_frames_feed [OF init(1) init(2) init(3) A1 S_def len first, of env sched i]
    obtain ev out ds1 ds2
      where f: "tcp_feed (tcp_init r) env sched i S =
               (Log log_debug ''Received a good handshake'' # ev, out)"
        and ds: "ds = ds1 @ ds2" and dl: "delivered (remote_udpaddr r) ev ds1"
        and o: "(\<exists>r'. out = Running r' \<and> ds2 = []) \<or>
            (out = Exited 1 \<and> ss_family (remote_udpaddr r) \<noteq> [0, 0] \<and>
             (\<exists>i j. \<not> nonfatal (env i j)))"
      by blast
    from o a obtain r' where "out = Running r'" "ds2 = []" by blast
    with f ds dl a tcp_feed_init [OF ne, of r env sched i] show ?thesis
      by (simp add: delivered_def S_def)
  qed
  from A B C D show ?thesis by blast
qed

theorem handshake_strictness_witness:
  "tcp_feed server_relay (\<lambda>i k. (Ok, Ok)) (\<lambda>i. 0) 0 (replicate 32 0) =
     ([Log log_info ''Received a bad handshake, exiting''], Exited 0)
   \<and> datagrams (fst (tcp_feed server_relay (\<lambda>i k. (Ok, Ok)) (\<lambda>i. 0) 0
                      (handshake server_relay @ [0, 1, 0x2a]))) = [[0x2a]]"
proof -
  have h: "state server_relay = uninitialized" "expect_handshake server_relay \<noteq> 0"
    "length (handshake server_relay) = 32" "length (buf server_relay) = TCPBUFFERSIZE"
    by (simp_all add: opts_handshake_bytes)
  have "(replicate 32 (0::byte)) ! 0 \<noteq> handshake server_relay ! 0"
    by (simp add: opts_handshake_bytes)
  then have bad: "\<exists>j<32. (replicate 32 (0::byte)) ! j \<noteq> handshake server_relay ! j"
    by (intro exI [of _ 0]) simp
  have fr: "concat (map frame [[0x2a]]) = [0, 1, 0x2a]" by (simp add: frame_def htons_def)
  have nf: "\<forall>i j. nonfatal ((\<lambda>i k. (Ok, Ok)) i j)" by (simp add: nonfatal_def)
  have sz: "\<forall>d\<in>set [[0x2a :: byte]]. length d \<le> UDPBUFFERSIZE"
    "[[0x2a :: byte]] \<noteq> [] \<longrightarrow> length (hd [[0x2a :: byte]]) \<le> TCPBUFFERSIZE - 34"
    by (simp_all add: UDPBUFFERSIZE_def TCPBUFFERSIZE_def)
  have peer: "ss_family (remote_udpaddr server_relay) \<noteq> [0, 0]" by simp
  note t = handshake_strictness [OF h, where s = "replicate 32 0" and env = "\<lambda>i k. (Ok, Ok)"
      and sched = "\<lambda>i. 0" and i = 0 and ds = "[[0x2a]]" and rest = "[]"]
  from t bad have "tcp_feed server_relay (\<lambda>i k. (Ok, Ok)) (\<lambda>i. 0) 0 (replicate 32 0) =
     ([Log log_info ''Received a bad handshake, exiting''], Exited 0)" by simp
  moreover from t sz peer nf fr
  have "datagrams (fst (tcp_feed server_relay (\<lambda>i k. (Ok, Ok)) (\<lambda>i. 0) 0
                      (handshake server_relay @ [0, 1, 0x2a]))) = [[0x2a]]"
    by auto
  ultimately show ?thesis by simp
qed

subsection \<open>The first frame after the handshake\<close>

lemma first_frame_loop:
  assumes "first_frame r n S s" and "TCPBUFFERSIZE - 34 < n"
  shows "\<exists>r'. tcp_loop r env k =
                ((if state r = reading_handshake \<and> state r' \<noteq> reading_handshake
                  then [Log log_debug ''Received a good handshake''] else []), Running r')
            \<and> first_frame r' n S s \<and> \<not> tcp_cond r'
            \<and> (state r' = reading_handshake \<longrightarrow> state r = reading_handshake)"
  using assms
proof (induction "tcp_rank r" arbitrary: r k rule: less_induct)
  case less
  note ff = \<open>first_frame r n S s\<close>
  have bok: "buffer_ok r" and lh: "length (handshake r) = 32"
    and t34: "take 34 S = handshake r @ htons n" and lS: "length S = 34 + n"
    and n: "n < 65536" and eq: "pending r @ s = drop (packet_start r) S"
    using ff by (simp_all add: first_frame_def)
  have lp: "length (pending r) = buf_ptr r - packet_start r" using bok by (rule length_pending)
  have b: "packet_start r \<le> buf_ptr r" "buf_ptr r \<le> TCPBUFFERSIZE"
    using bok by (simp_all add: buffer_ok_def offsets_ok_def)
  show ?case
  proof (cases "tcp_cond r")
    case False
    then have "tcp_loop r env k = ([], Running r)" by (rule tcp_loop_exit)
    with ff False show ?thesis by auto
  next
    case True
    from ff consider
        (H) "state r = reading_handshake" "packet_start r = 0" "packet_length r = 32"
      | (L) "state r = reading_length" "packet_start r = 32" "packet_length r = 2"
      | (P) "state r = reading_packet" "packet_start r = 34" "packet_length r = n"
      by (auto simp: first_frame_def)
    then show ?thesis
    proof cases
      case H
      have b32: "32 \<le> buf_ptr r" using True H by (simp add: tcp_cond_def)
      have "take 32 (drop (packet_start r) (buf r)) = take 32 (pending r)"
        using b32 H by (intro take_pending) simp
      also have "\<dots> = take 32 (pending r @ s)" using lp b32 H by simp
      also have "\<dots> = take 32 (take 34 S)" using eq H by simp
      also have "\<dots> = handshake r" using t34 lh by simp
      finally have m: "take 32 (drop (packet_start r) (buf r)) = take 32 (handshake r)"
        using lh by simp
      define r1 where "r1 = r\<lparr>packet_start := packet_start r + 32, state := reading_length,
                               packet_length := 2\<rparr>"
      have body: "tcp_body r (env k) = ([Log log_debug ''Received a good handshake''], Running r1)"
        using H(1) m by (simp add: tcp_body_handshake r1_def)
      have "pending r1 = drop 32 (pending r)" unfolding r1_def by (rule pending_advance)
      then have "pending r1 @ s = drop 32 (pending r @ s)"
        using lp b32 H by simp
      then have "pending r1 @ s = drop (packet_start r1) S"
        using eq H by (simp add: r1_def)
      moreover have "buffer_ok r1" using bok b32 H by (simp add: buffer_ok_def offsets_ok_def r1_def)
      ultimately have ff1: "first_frame r1 n S s"
        using lh t34 lS n H by (simp add: first_frame_def r1_def)
      have rk: "tcp_rank r1 < tcp_rank r" using True _ body by (rule tcp_body_rank) (simp add: H)
      from less.hyps [OF rk ff1 less.prems(2), of "Suc k"]
      obtain r' where l1: "tcp_loop r1 env (Suc k) = ([], Running r')"
        and r': "first_frame r' n S s" "\<not> tcp_cond r'" "state r' \<noteq> reading_handshake"
        by (auto simp: r1_def)
      have "tcp_loop r env k = emit [Log log_debug ''Received a good handshake'']
                                 (tcp_loop r1 env (Suc k))"
        using True _ body by (rule tcp_loop_step) (simp add: H)
      with l1 r' H show ?thesis by auto
    next
      case L
      have b34: "34 \<le> buf_ptr r" using True L by (simp add: tcp_cond_def)
      have "take 2 (drop (packet_start r) (buf r)) = take 2 (pending r)"
        using b34 L by (intro take_pending) simp
      also have "\<dots> = take 2 (pending r @ s)" using lp b34 L by simp
      also have "\<dots> = drop 32 (take 34 S)" using eq L by (simp add: drop_take)
      also have "\<dots> = htons n" using t34 lh by simp
      finally have "ntohs (take 2 (drop (packet_start r) (buf r))) = n"
        using n by (simp add: ntohs_htons)
      define r1 where "r1 = r\<lparr>packet_length := n, packet_start := packet_start r + 2,
                               state := reading_packet\<rparr>"
      have body: "tcp_body r (env k) = ([], Running r1)"
        using L(1) \<open>ntohs (take 2 (drop (packet_start r) (buf r))) = n\<close>
        by (simp add: tcp_body_length r1_def)
      have "pending r1 = drop 2 (pending r)" unfolding r1_def by (rule pending_advance)
      then have "pending r1 @ s = drop 2 (pending r @ s)"
        using lp b34 L by simp
      then have "pending r1 @ s = drop (packet_start r1) S"
        using eq L by (simp add: r1_def)
      moreover have "buffer_ok r1" using bok b34 L by (simp add: buffer_ok_def offsets_ok_def r1_def)
      ultimately have ff1: "first_frame r1 n S s"
        using lh t34 lS n L by (simp add: first_frame_def r1_def)
      have rk: "tcp_rank r1 < tcp_rank r" using True _ body by (rule tcp_body_rank) (simp add: L)
      from less.hyps [OF rk ff1 less.prems(2), of "Suc k"]
      obtain r' where l1: "tcp_loop r1 env (Suc k) = ([], Running r')"
        and r': "first_frame r' n S s" "\<not> tcp_cond r'" "state r' \<noteq> reading_handshake"
        by (auto simp: r1_def)
      have "tcp_loop r env k = emit [] (tcp_loop r1 env (Suc k))"
        using True _ body by (rule tcp_loop_step) (simp add: L)
      with l1 r' L show ?thesis by auto
    next
      case P
      with True b(2) less.prems(2) show ?thesis by (simp add: tcp_cond_def)
    qed
  qed
qed

lemma first_frame_store:
  assumes "first_frame r n S s" and "buf_ptr r + length bs \<le> TCPBUFFERSIZE" and "bs @ s' = s"
  shows "first_frame (store_read r bs) n S s'"
proof -
  have bok: "buffer_ok r" using assms(1) by (simp add: first_frame_def)
  from store_read_pending [OF bok assms(2)] store_read_buffer_ok [OF bok assms(2)] assms(1,3)
  show ?thesis by (auto simp: first_frame_def)
qed

lemma first_frame_feed:
  assumes "first_frame r n S s" and "\<not> tcp_cond r" and "TCPBUFFERSIZE - 34 < n"
  shows "tcp_feed r env sched i s =
           ((if state r = reading_handshake
             then [Log log_debug ''Received a good handshake''] else []) @
            [Log log_notice ''Remote closed the connection''], Exited 0)"
  using assms
proof (induction "length s" arbitrary: r i s rule: less_induct)
  case less
  note ff = \<open>first_frame r n S s\<close> and nc = \<open>\<not> tcp_cond r\<close>
  have bok: "buffer_ok r" and lS: "length S = 34 + n"
    and eq: "pending r @ s = drop (packet_start r) S"
    using ff by (simp_all add: first_frame_def)
  have ps: "packet_start r \<le> 34" and un: "state r \<noteq> uninitialized"
    using ff by (auto simp: first_frame_def)
  have b: "packet_start r \<le> buf_ptr r" "buf_ptr r \<le> TCPBUFFERSIZE"
    using bok by (simp_all add: buffer_ok_def offsets_ok_def)
  have "length (pending r) + length s = length S - packet_start r"
    using eq by (metis length_append length_drop)
  with length_pending [OF bok] lS ps b have tot: "buf_ptr r + length s = 34 + n" by simp
  with b(2) less.prems(3) have ne: "s \<noteq> []" by auto
  define bs where "bs = chunk r (sched i) s"
  have rd: "tcp_to_udp r (env i) (Read_avail (take (Suc (sched i)) s)) =
              (if bs = [] then log_printf_exit 0 log_notice ''Remote closed the connection''
               else tcp_loop (store_read r bs) (env i) 0)"
    unfolding bs_def using un by (rule tcp_to_udp_chunk)
  show ?case
  proof (cases "buf_ptr r < TCPBUFFERSIZE")
    case False
    then have "bs = []" unfolding bs_def by (intro chunk_full) simp
    moreover have "state r \<noteq> reading_handshake"
      using False nc ff by (auto simp: first_frame_def tcp_cond_def TCPBUFFERSIZE_def)
    ultimately show ?thesis
      using rd ne by (subst tcp_feed.simps) (simp add: log_printf_exit_def)
  next
    case True
    have bne: "bs \<noteq> []" unfolding bs_def using True ne by (rule chunk_nonempty)
    have dr: "drop (min (Suc (sched i)) (tcp_read_count r)) s = drop (length bs) s"
      unfolding bs_def using un by (rule chunk_drop)
    have ff1: "first_frame (store_read r bs) n S (drop (length bs) s)"
      using ff chunk_fits [OF True] chunk_append unfolding bs_def by (rule first_frame_store)
    from first_frame_loop [OF ff1 less.prems(3), of "env i" 0]
    obtain r2 where l: "tcp_loop (store_read r bs) (env i) 0 =
                ((if state r = reading_handshake \<and> state r2 \<noteq> reading_handshake
                  then [Log log_debug ''Received a good handshake''] else []), Running r2)"
      and ff2: "first_frame r2 n S (drop (length bs) s)" and nc2: "\<not> tcp_cond r2"
      and bk: "state r2 = reading_handshake \<longrightarrow> state r = reading_handshake"
      by auto
    have "length (drop (length bs) s) < length s" using bne ne by (cases bs) auto
    from less.hyps [OF this ff2 nc2 less.prems(3), of "Suc i"]
    have f: "tcp_feed r2 env sched (Suc i) (drop (length bs) s) =
           ((if state r2 = reading_handshake
             then [Log log_debug ''Received a good handshake''] else []) @
            [Log log_notice ''Remote closed the connection''], Exited 0)" .
    show ?thesis
      using rd bne dr l f ne bk by (subst tcp_feed.simps) auto
  qed
qed

text \<open>
  C2 fails on the code. A relay that expects a handshake never compacts its buffer before
  the first frame: the token stays in bytes 0..31 and the length field in bytes 32..33, so
  a first frame of more than \<^verbatim>\<open>TCPBUFFERSIZE - 34\<close> = 65502 bytes never fits. For every
  such payload of at most 65534 bytes, in reads of any sizes, the relay logs the good
  handshake, fills its buffer, asks \<^verbatim>\<open>read\<close> for 0 bytes, takes the 0 it gets for the
  end of the connection and exits with status 0; it sends no datagram.
\<close>

theorem first_frame_too_long_is_lost:
  assumes "state r = uninitialized" and "expect_handshake r \<noteq> 0"
    and "length (handshake r) = 32" and "length (buf r) = TCPBUFFERSIZE"
    and "TCPBUFFERSIZE - 34 < length payload" and "length payload \<le> UDPBUFFERSIZE"
  shows "tcp_feed r env sched i (handshake r @ htons (length payload) @ payload) =
           ([Log log_debug ''Received a good handshake'',
             Log log_notice ''Remote closed the connection''], Exited 0)"
proof -
  define S where "S = handshake r @ htons (length payload) @ payload"
  have "S \<noteq> []" using assms(3) by (auto simp: S_def)
  have "first_frame (tcp_init r) (length payload) S S"
    using assms
    by (simp add: first_frame_def tcp_init_def buffer_ok_def offsets_ok_def pending_def S_def
        UDPBUFFERSIZE_def TCPBUFFERSIZE_def)
  moreover have "\<not> tcp_cond (tcp_init r)"
    using assms(1,2) by (simp add: tcp_cond_def tcp_init_def)
  ultimately have "tcp_feed (tcp_init r) env sched i S =
           ((if state (tcp_init r) = reading_handshake
             then [Log log_debug ''Received a good handshake''] else []) @
            [Log log_notice ''Remote closed the connection''], Exited 0)"
    using assms(5) by (rule first_frame_feed)
  moreover have "state (tcp_init r) = reading_handshake"
    using assms(1,2) by (simp add: tcp_init_def)
  ultimately show ?thesis
    using tcp_feed_init [OF \<open>S \<noteq> []\<close>, of r env sched i] by (simp add: S_def)
qed

theorem first_frame_too_long_is_lost_witness:
  "tcp_feed server_relay (\<lambda>i k. (Ok, Ok)) (\<lambda>i. 1023) 0
     (handshake server_relay @ htons 65534 @ replicate 65534 0x41) =
   ([Log log_debug ''Received a good handshake'',
     Log log_notice ''Remote closed the connection''], Exited 0)"
proof -
  have h: "state server_relay = uninitialized" "expect_handshake server_relay \<noteq> 0"
    "length (handshake server_relay) = 32" "length (buf server_relay) = TCPBUFFERSIZE"
    "TCPBUFFERSIZE - 34 < length (replicate 65534 (0x41::byte))"
    "length (replicate 65534 (0x41::byte)) \<le> UDPBUFFERSIZE"
    by (simp_all add: opts_handshake_bytes TCPBUFFERSIZE_def UDPBUFFERSIZE_def)
  from first_frame_too_long_is_lost [OF h, of "\<lambda>i k. (Ok, Ok)" "\<lambda>i. 1023" 0]
  show ?thesis by simp
qed

end
